theory Spec2Isabelle
  imports Main
begin

section \<open>Text: characters and the string methods the extractor calls\<close>

text \<open>
  Python text is modelled as \<^typ>\<open>string\<close>, a list of 8-bit characters read as the code
  points 0..255 (Latin-1). On these code points the character classes below are the ones
  CPython uses for \<^verbatim>\<open>str.isspace\<close>, \<^verbatim>\<open>str.split\<close>, \<^verbatim>\<open>str.strip\<close> and for \<^verbatim>\<open>\s\<close>
  and \<^verbatim>\<open>\d\<close> in a \<^verbatim>\<open>str\<close> pattern. Code points above 255 are outside the model.
\<close>

definition newline :: char where
  "newline = CHR 0x0A"

definition isspace :: "char \<Rightarrow> bool" where
  "isspace c \<longleftrightarrow> c \<in> set [CHR 0x09, CHR 0x0A, CHR 0x0B, CHR 0x0C, CHR 0x0D,
                           CHR 0x1C, CHR 0x1D, CHR 0x1E, CHR 0x1F, CHR 0x20,
                           CHR 0x85, CHR 0xA0]"

definition isdigit :: "char \<Rightarrow> bool" where
  "isdigit c \<longleftrightarrow> c \<in> set ''0123456789''"

definition upper_letters :: string where
  "upper_letters = ''ABCDEFGHIJKLMNOPQRSTUVWXYZ'' @
     [CHR 0xC0, CHR 0xC1, CHR 0xC2, CHR 0xC3, CHR 0xC4, CHR 0xC5, CHR 0xC6, CHR 0xC7,
      CHR 0xC8, CHR 0xC9, CHR 0xCA, CHR 0xCB, CHR 0xCC, CHR 0xCD, CHR 0xCE, CHR 0xCF,
      CHR 0xD0, CHR 0xD1, CHR 0xD2, CHR 0xD3, CHR 0xD4, CHR 0xD5, CHR 0xD6,
      CHR 0xD8, CHR 0xD9, CHR 0xDA, CHR 0xDB, CHR 0xDC, CHR 0xDD, CHR 0xDE]"

definition lower_letters :: string where
  "lower_letters = ''abcdefghijklmnopqrstuvwxyz'' @
     [CHR 0xE0, CHR 0xE1, CHR 0xE2, CHR 0xE3, CHR 0xE4, CHR 0xE5, CHR 0xE6, CHR 0xE7,
      CHR 0xE8, CHR 0xE9, CHR 0xEA, CHR 0xEB, CHR 0xEC, CHR 0xED, CHR 0xEE, CHR 0xEF,
      CHR 0xF0, CHR 0xF1, CHR 0xF2, CHR 0xF3, CHR 0xF4, CHR 0xF5, CHR 0xF6,
      CHR 0xF8, CHR 0xF9, CHR 0xFA, CHR 0xFB, CHR 0xFC, CHR 0xFD, CHR 0xFE]"

definition lower_char :: "char \<Rightarrow> char" where
  "lower_char c = (case map_of (zip upper_letters lower_letters) c of
                     Some l \<Rightarrow> l | None \<Rightarrow> c)"

text \<open>
  \<^verbatim>\<open>str.upper\<close> can lengthen the text: the sharp s (0xDF) becomes \<^verbatim>\<open>SS\<close>. The micro sign
  (0xB5) and y with diaeresis (0xFF) have upper-case forms above 255; they are left as they
  are, which no test of the extractor can tell apart (it only looks for the ASCII words
  \<^verbatim>\<open>CLASS\<close> and \<^verbatim>\<open>SECTION\<close>).
\<close>

definition upper_char :: "char \<Rightarrow> string" where
  "upper_char c = (if c = CHR 0xDF then ''SS''
                   else case map_of (zip lower_letters upper_letters) c of
                          Some u \<Rightarrow> [u] | None \<Rightarrow> [c])"

definition lower :: "string \<Rightarrow> string" where
  "lower s = map lower_char s"

definition upper :: "string \<Rightarrow> string" where
  "upper s = concat (map upper_char s)"

definition strip :: "string \<Rightarrow> string" where
  "strip s = rev (dropWhile isspace (rev (dropWhile isspace s)))"

text \<open>\<^verbatim>\<open>s.split()\<close>: the maximal runs of non-whitespace characters.\<close>

function split_ws :: "string \<Rightarrow> string list" where
  "split_ws s =
     (let s' = dropWhile isspace s
      in if s' = [] then []
         else takeWhile (\<lambda>c. \<not> isspace c) s' # split_ws (dropWhile (\<lambda>c. \<not> isspace c) s'))"
  by pat_completeness auto
termination
proof (relation "measure length")
  show "wf (measure length)" by simp
next
  fix s s' :: string
  assume s': "s' = dropWhile isspace s" and ne: "s' \<noteq> []"
  from ne obtain c cs where cs: "s' = c # cs" by (cases s') auto
  with s' have "dropWhile isspace s = c # cs" by simp
  then have "\<not> isspace c"
    by (simp add: dropWhile_eq_Cons_conv)
  with cs have "dropWhile (\<lambda>c. \<not> isspace c) s' = dropWhile (\<lambda>c. \<not> isspace c) cs"
    by simp
  moreover have "length (dropWhile (\<lambda>c. \<not> isspace c) cs) \<le> length cs"
    by (rule length_dropWhile_le)
  moreover have "length s' \<le> length s"
    unfolding s' by (rule length_dropWhile_le)
  ultimately show "(dropWhile (\<lambda>c. \<not> isspace c) s', s) \<in> measure length"
    using cs by simp
qed

declare split_ws.simps [simp del]

text \<open>\<^verbatim>\<open>' '.join(ws)\<close>\<close>

fun join_sp :: "string list \<Rightarrow> string" where
  "join_sp [] = []"
| "join_sp [w] = w"
| "join_sp (w # v # ws) = w @ CHR '' '' # join_sp (v # ws)"

text \<open>\<^verbatim>\<open>str(n)\<close> and \<^verbatim>\<open>int(s)\<close> on decimal digits.\<close>

definition digit_char :: "nat \<Rightarrow> char" where
  "digit_char d = ''0123456789'' ! d"

function str_of_nat :: "nat \<Rightarrow> string" where
  "str_of_nat n = (if n < 10 then [digit_char n] else str_of_nat (n div 10) @ [digit_char (n mod 10)])"
  by pat_completeness auto
termination
  by (relation "measure id") auto

declare str_of_nat.simps [simp del]

definition digit_val :: "char \<Rightarrow> nat" where
  "digit_val c = (case map_of (zip ''0123456789'' [0, 1, 2, 3, 4, 5, 6, 7, 8, 9]) c of
                    Some d \<Rightarrow> d | None \<Rightarrow> 0)"

definition int_of_digits :: "string \<Rightarrow> nat" where
  "int_of_digits s = foldl (\<lambda>n c. 10 * n + digit_val c) 0 s"

section \<open>Regular expressions as backtracking matchers\<close>

text \<open>
  The patterns of the extractor are built from the combinators below. A matcher takes the
  groups captured so far and the rest of the input, and returns every way to match, in the
  order in which the backtracking engine of \<^verbatim>\<open>re\<close> tries them (greedy first); the first
  one is the match \<^verbatim>\<open>re\<close> reports. The patterns only repeat single character classes, and
  their groups are never nested.
\<close>

type_synonym mstate = "string list \<times> string"
type_synonym matcher = "mstate \<Rightarrow> mstate list"

definition rx_chr :: "(char \<Rightarrow> bool) \<Rightarrow> matcher" where
  "rx_chr P = (\<lambda>(g, s). case s of [] \<Rightarrow> [] | c # cs \<Rightarrow> if P c then [(g, cs)] else [])"

fun rx_seq :: "matcher list \<Rightarrow> matcher" where
  "rx_seq [] st = [st]"
| "rx_seq (m # ms) st = concat (map (rx_seq ms) (m st))"

definition rx_opt :: "matcher \<Rightarrow> matcher" where
  "rx_opt m = (\<lambda>st. m st @ [st])"

definition rx_alt :: "matcher \<Rightarrow> matcher \<Rightarrow> matcher" where
  "rx_alt a b = (\<lambda>st. a st @ b st)"

fun star_rests :: "(char \<Rightarrow> bool) \<Rightarrow> string \<Rightarrow> string list" where
  "star_rests P [] = [[]]"
| "star_rests P (c # cs) = (if P c then star_rests P cs @ [c # cs] else [c # cs])"

definition rx_star :: "(char \<Rightarrow> bool) \<Rightarrow> matcher" where
  "rx_star P = (\<lambda>(g, s). map (Pair g) (star_rests P s))"

definition rx_plus :: "(char \<Rightarrow> bool) \<Rightarrow> matcher" where
  "rx_plus P = rx_seq [rx_chr P, rx_star P]"

definition rx_grp :: "matcher \<Rightarrow> matcher" where
  "rx_grp m = (\<lambda>(g, s). map (\<lambda>(g', r). (g' @ [take (length s - length r) s], r)) (m (g, s)))"

text \<open>\<^verbatim>\<open>$\<close>: at the end of the text, or just before a newline that ends it.\<close>

definition rx_eol :: matcher where
  "rx_eol = (\<lambda>(g, s). if s = [] \<or> s = [newline] then [(g, s)] else [])"

definition rx_lit :: "string \<Rightarrow> matcher" where
  "rx_lit w = rx_seq (map (\<lambda>c. rx_chr (\<lambda>x. x = c)) w)"

text \<open>Under \<^verbatim>\<open>re.IGNORECASE\<close> a character matches when the lower-case forms agree.\<close>

definition rx_lit_i :: "string \<Rightarrow> matcher" where
  "rx_lit_i w = rx_seq (map (\<lambda>c. rx_chr (\<lambda>x. lower_char x = lower_char c)) w)"

definition re_match :: "matcher \<Rightarrow> string \<Rightarrow> mstate option" where
  "re_match m s = (case m ([], s) of [] \<Rightarrow> None | st # _ \<Rightarrow> Some st)"

fun re_search :: "matcher \<Rightarrow> string \<Rightarrow> mstate option" where
  "re_search m [] = re_match m []"
| "re_search m (c # cs) = (case re_match m (c # cs) of Some st \<Rightarrow> Some st | None \<Rightarrow> re_search m cs)"

text \<open>
  \<^verbatim>\<open>re.sub(p, '', s)\<close>: the leftmost matches, one after the other, are dropped. A match
  that consumes nothing leaves the character in place, as \<^verbatim>\<open>re\<close> does.
\<close>

function re_sub :: "matcher \<Rightarrow> string \<Rightarrow> string" where
  "re_sub m s =
     (case re_match m s of
        Some (g, r) \<Rightarrow>
          if length r < length s then re_sub m r
          else (case s of [] \<Rightarrow> [] | c # cs \<Rightarrow> c # re_sub m cs)
      | None \<Rightarrow> (case s of [] \<Rightarrow> [] | c # cs \<Rightarrow> c # re_sub m cs))"
  by pat_completeness auto
termination
  by (relation "measure (\<lambda>(m, s). length s)") auto

declare re_sub.simps [simp del]

text \<open>
  \<^verbatim>\<open>re.split(p, s)\<close> for a pattern with groups: the text between the matches, with the
  groups of each match in between. \<open>acc\<close> holds the text since the last match, reversed.
  The one pattern split on here never matches the empty string.
\<close>

function re_split_from :: "matcher \<Rightarrow> string \<Rightarrow> string \<Rightarrow> string list" where
  "re_split_from m acc s =
     (case re_match m s of
        Some (g, r) \<Rightarrow>
          if length r < length s then rev acc # g @ re_split_from m [] r
          else (case s of [] \<Rightarrow> [rev acc] | c # cs \<Rightarrow> re_split_from m (c # acc) cs)
      | None \<Rightarrow> (case s of [] \<Rightarrow> [rev acc] | c # cs \<Rightarrow> re_split_from m (c # acc) cs))"
  by pat_completeness auto
termination
  by (relation "measure (\<lambda>(m, acc, s). length s)") auto

declare re_split_from.simps [simp del]

definition re_split :: "matcher \<Rightarrow> string \<Rightarrow> string list" where
  "re_split m s = re_split_from m [] s"

section \<open>The cleaning and parsing helpers of \<^verbatim>\<open>PDFExtractor\<close>\<close>

text \<open>\<^verbatim>\<open>Ans\.?\s*\[?[A-D]\]?\<close> with \<^verbatim>\<open>re.IGNORECASE\<close>\<close>

definition ans_pattern :: matcher where
  "ans_pattern = rx_seq [rx_lit_i ''Ans'', rx_opt (rx_lit ''.''), rx_star isspace,
                         rx_opt (rx_lit ''[''), rx_chr (\<lambda>c. lower_char c \<in> set ''abcd''),
                         rx_opt (rx_lit '']'')]"

text \<open>\<^verbatim>\<open>---page\d+---\<close> and, with its group, \<^verbatim>\<open>---page(\d+)---\<close>\<close>

definition page_tag_pattern :: matcher where
  "page_tag_pattern = rx_seq [rx_lit ''---page'', rx_plus isdigit, rx_lit ''---'']"

definition page_num_pattern :: matcher where
  "page_num_pattern = rx_seq [rx_lit ''---page'', rx_grp (rx_plus isdigit), rx_lit ''---'']"

definition clean_question_text :: "string \<Rightarrow> string" where
  "clean_question_text text0 =
     (let text1 = re_sub ans_pattern text0;
          text2 = re_sub page_tag_pattern text1
      in strip (join_sp (split_ws text2)))"

text \<open>\<^verbatim>\<open>(\[[A-D]\][^\[\]]*)\<close> and \<^verbatim>\<open>\[([A-D])\](.*)\<close>\<close>

definition option_split_pattern :: matcher where
  "option_split_pattern =
     rx_grp (rx_seq [rx_lit ''['', rx_chr (\<lambda>c. c \<in> set ''ABCD''), rx_lit '']'',
                     rx_star (\<lambda>c. c \<notin> set ''[]'')])"

definition option_pattern :: matcher where
  "option_pattern =
     rx_seq [rx_lit ''['', rx_grp (rx_chr (\<lambda>c. c \<in> set ''ABCD'')), rx_lit '']'',
             rx_grp (rx_star (\<lambda>c. c \<noteq> newline))]"

record option_entry =
  label :: string
  otext :: string

text \<open>One round of the loop over \<^verbatim>\<open>option_parts\<close>: the entries this part appends.\<close>

definition part_options :: "string \<Rightarrow> option_entry list" where
  "part_options part =
     (if strip part = [] then []
      else case re_match option_pattern (strip part) of
             None \<Rightarrow> []
           | Some (g, r) \<Rightarrow>
               (case g of
                  [g1, g2] \<Rightarrow> if strip g2 \<noteq> [] then [\<lparr>label = g1, otext = strip g2\<rparr>] else []
                | _ \<Rightarrow> []))"

definition extract_options :: "string \<Rightarrow> option_entry list" where
  "extract_options question_text =
     concat (map part_options (re_split option_split_pattern question_text))"

text \<open>
  The four patterns of \<^verbatim>\<open>_is_question_with_image\<close>, searched with \<^verbatim>\<open>re.IGNORECASE\<close>.
  The first one's class \<^verbatim>\<open>[=\<noteq><>]\<close> holds the sign for "not equal", a code point above 255.
\<close>

definition image_patterns :: "matcher list" where
  "image_patterns =
     [rx_seq [rx_plus isdigit, rx_star isspace, rx_chr (\<lambda>c. c \<in> set ''=<>''),
              rx_star isspace, rx_plus isdigit],
      rx_seq [rx_lit ''_'', rx_star isspace, rx_lit ''_'', rx_star isspace, rx_lit ''_''],
      rx_seq [rx_lit_i ''see '',
              rx_grp (rx_alt (rx_lit_i ''figure'') (rx_alt (rx_lit_i ''image'') (rx_lit_i ''diagram'')))],
      rx_seq [rx_lit_i ''below'', rx_star isspace, rx_opt (rx_lit '':''), rx_eol]]"

definition is_question_with_image :: "string \<Rightarrow> bool" where
  "is_question_with_image text0 = list_ex (\<lambda>p. re_search p text0 \<noteq> None) image_patterns"

section \<open>The document, the logo fingerprint and the two page walks\<close>

text \<open>
  What the PDF library hands over: for each page its text (\<^verbatim>\<open>page.get_text()\<close>) and its
  embedded images in document order, each with the bytes and the format that
  \<^verbatim>\<open>doc.extract_image\<close> returns. Image bytes are opaque (\<open>'b\<close>), and so are fingerprints
  (\<open>'h\<close>, the MD5 digest of the decoded pixels, a string that is never empty).
  \<^verbatim>\<open>_get_image_hash\<close> is the parameter \<open>get_image_hash\<close>; it is \<open>None\<close> where the image
  decoder raises. \<^verbatim>\<open>_save_image\<close> is the parameter \<open>save_image\<close>, its \<^verbatim>\<open>bool\<close> result.
\<close>

record 'b embedded_image =
  image_bytes :: 'b
  image_ext :: string

record 'b pdf_page =
  page_text :: string
  page_images :: "'b embedded_image list"

datatype error = ImageDecodeError

record 'h extractor =
  vedantu_logo_hash :: "'h option"

text \<open>\<open>logo_file\<close>: the bytes of the reference logo, \<open>None\<close> when the file does not exist.\<close>

definition init_extractor :: "('b \<Rightarrow> 'h option) \<Rightarrow> 'b option \<Rightarrow> error + 'h extractor" where
  "init_extractor get_image_hash logo_file =
     (case logo_file of
        None \<Rightarrow> Inr \<lparr>vedantu_logo_hash = None\<rparr>
      | Some logo_bytes \<Rightarrow>
          (case get_image_hash logo_bytes of
             None \<Rightarrow> Inl ImageDecodeError
           | Some h \<Rightarrow> Inr \<lparr>vedantu_logo_hash = Some h\<rparr>))"

definition should_skip_page ::
  "('b \<Rightarrow> 'h option) \<Rightarrow> 'h extractor \<Rightarrow> string \<Rightarrow> 'b embedded_image list \<Rightarrow> error + bool" where
  "should_skip_page get_image_hash self text0 image_infos =
     (if text0 = [] \<and> length image_infos = 1 \<and> vedantu_logo_hash self \<noteq> None
      then (case get_image_hash (image_bytes (image_infos ! 0)) of
              None \<Rightarrow> Inl ImageDecodeError
            | Some h \<Rightarrow> Inr (Some h = vedantu_logo_hash self))
      else Inr False)"

record harvested_image =
  page :: nat
  path :: string

definition VALID_IMAGE_EXTS :: "string list" where
  "VALID_IMAGE_EXTS = [''png'', ''jpg'', ''jpeg'', ''jpe'']"

definition IMAGE_DIR :: string where
  "IMAGE_DIR = ''output/images''"

definition image_path :: "nat \<Rightarrow> nat \<Rightarrow> string \<Rightarrow> string" where
  "image_path page_number img_index ext =
     IMAGE_DIR @ ''/'' @ ''page'' @ str_of_nat (page_number + 1) @ ''_image'' @ str_of_nat img_index
       @ ''.'' @ ext"

text \<open>
  \<^verbatim>\<open>self.vedantu_logo_hash and self._get_image_hash(image_bytes) == self.vedantu_logo_hash\<close>:
  without a logo fingerprint the image is not decoded at all.
\<close>

definition matches_logo :: "('b \<Rightarrow> 'h option) \<Rightarrow> 'h extractor \<Rightarrow> 'b \<Rightarrow> error + bool" where
  "matches_logo get_image_hash self bytes =
     (if vedantu_logo_hash self = None then Inr False
      else case get_image_hash bytes of
             None \<Rightarrow> Inl ImageDecodeError
           | Some h \<Rightarrow> Inr (Some h = vedantu_logo_hash self))"

text \<open>
  The inner loop of the harvest, over the images of page \<open>page_number\<close> (0-based);
  \<open>img_index\<close> counts them from 1.
\<close>

fun harvest_page ::
  "('b \<Rightarrow> 'h option) \<Rightarrow> ('b \<Rightarrow> string \<Rightarrow> bool) \<Rightarrow> 'h extractor \<Rightarrow> nat \<Rightarrow> nat \<Rightarrow>
   'b embedded_image list \<Rightarrow> error + harvested_image list" where
  "harvest_page get_image_hash save_image self page_number img_index [] = Inr []"
| "harvest_page get_image_hash save_image self page_number img_index (img # imgs) =
     (let ext = lower (image_ext img);
          rest = harvest_page get_image_hash save_image self page_number (img_index + 1) imgs
      in if ext \<notin> set VALID_IMAGE_EXTS then rest
         else case matches_logo get_image_hash self (image_bytes img) of
                Inl e \<Rightarrow> Inl e
              | Inr is_logo \<Rightarrow>
                  if is_logo then rest
                  else if save_image (image_bytes img) (image_path page_number img_index ext)
                  then map_sum id
                         ((#) \<lparr>page = page_number + 1, path = image_path page_number img_index ext\<rparr>)
                         rest
                  else rest)"

fun harvest_images ::
  "('b \<Rightarrow> 'h option) \<Rightarrow> ('b \<Rightarrow> string \<Rightarrow> bool) \<Rightarrow> 'h extractor \<Rightarrow> nat \<Rightarrow>
   'b pdf_page list \<Rightarrow> error + harvested_image list" where
  "harvest_images get_image_hash save_image self page_number [] = Inr []"
| "harvest_images get_image_hash save_image self page_number (pg # pgs) =
     (case harvest_page get_image_hash save_image self page_number 1 (page_images pg) of
        Inl e \<Rightarrow> Inl e
      | Inr found \<Rightarrow>
          map_sum id ((@) found) (harvest_images get_image_hash save_image self (page_number + 1) pgs))"

definition page_marker :: "nat \<Rightarrow> string" where
  "page_marker page_number = [newline] @ ''---page'' @ str_of_nat (page_number + 1) @ ''---'' @ [newline]"

fun collect_text ::
  "('b \<Rightarrow> 'h option) \<Rightarrow> 'h extractor \<Rightarrow> nat \<Rightarrow> 'b pdf_page list \<Rightarrow> error + string" where
  "collect_text get_image_hash self page_number [] = Inr []"
| "collect_text get_image_hash self page_number (pg # pgs) =
     (let text0 = strip (page_text pg)
      in case should_skip_page get_image_hash self text0 (page_images pg) of
           Inl e \<Rightarrow> Inl e
         | Inr skip \<Rightarrow>
             map_sum id ((@) (if skip then [] else page_marker page_number @ text0))
               (collect_text get_image_hash self (page_number + 1) pgs))"

section \<open>Segmenting the text and assembling the question records\<close>

text \<open>\<^verbatim>\<open>\d+\.\s\<close> and \<^verbatim>\<open>(\d+)\.\<close>\<close>

definition question_head :: matcher where
  "question_head = rx_seq [rx_plus isdigit, rx_lit ''.'', rx_chr isspace]"

definition question_num :: matcher where
  "question_num = rx_seq [rx_grp (rx_plus isdigit), rx_lit ''.'']"

text \<open>
  \<^verbatim>\<open>re.split(r'(?=\n\d+\.\s|\A\d+\.\s)', all_text)\<close>: the text is cut, without losing a
  character, before every newline that a question number follows, and at its very start
  when a question number stands there. \<open>acc\<close> holds the current piece, reversed.
\<close>

fun split_questions :: "bool \<Rightarrow> string \<Rightarrow> string \<Rightarrow> string list" where
  "split_questions at_start acc [] = [rev acc]"
| "split_questions at_start acc (c # cs) =
     (if re_match (rx_seq [rx_lit [newline], question_head]) (c # cs) \<noteq> None
         \<or> (at_start \<and> re_match question_head (c # cs) \<noteq> None)
      then rev acc # split_questions False [c] cs
      else split_questions False (c # acc) cs)"

definition raw_questions :: "string \<Rightarrow> string list" where
  "raw_questions all_text =
     map strip (filter (\<lambda>q. re_match question_head (strip q) \<noteq> None)
                       (split_questions True [] all_text))"

definition startswith :: "string \<Rightarrow> string \<Rightarrow> bool" where
  "startswith s p \<longleftrightarrow> take (length p) s = p"

fun contains :: "string \<Rightarrow> string \<Rightarrow> bool" where
  "contains [] p \<longleftrightarrow> p = []"
| "contains (c # cs) p \<longleftrightarrow> startswith (c # cs) p \<or> contains cs p"

text \<open>The two \<^verbatim>\<open>continue\<close> tests at the head of the loop over the spans.\<close>

definition skipped_span :: "string \<Rightarrow> bool" where
  "skipped_span q_text \<longleftrightarrow>
     startswith (upper q_text) ''CLASS'' \<or> contains (upper q_text) ''SECTION''
     \<or> re_match question_num q_text = None"

text \<open>
  \<^verbatim>\<open>current_page\<close>: the number in the first page tag of the span, \<open>None\<close> without one.
  \<^verbatim>\<open>int\<close> is taken without the interpreter's limit on the number of digits.
\<close>

definition recover_page :: "string \<Rightarrow> nat option" where
  "recover_page q_text =
     (case re_search page_num_pattern q_text of
        None \<Rightarrow> None
      | Some (g, r) \<Rightarrow> (case g of [d] \<Rightarrow> Some (int_of_digits d) | _ \<Rightarrow> None))"

text \<open>The truth value of \<^verbatim>\<open>current_page\<close>: \<^verbatim>\<open>None\<close> and \<^verbatim>\<open>0\<close> are false.\<close>

definition truthy :: "nat option \<Rightarrow> bool" where
  "truthy current_page \<longleftrightarrow> current_page \<noteq> None \<and> current_page \<noteq> Some 0"

text \<open>Step 3: the question's image candidates and the cursor after them.\<close>

definition attach_primary ::
  "harvested_image list \<Rightarrow> nat \<Rightarrow> string \<Rightarrow> nat option \<Rightarrow> string list \<times> nat" where
  "attach_primary all_images image_index clean_text current_page =
     (if image_index < length all_images then
        (if is_question_with_image clean_text \<or> truthy current_page then
           (let page_images = filter (\<lambda>img. Some (page img) = current_page) all_images
            in if page_images \<noteq> [] then (map path page_images, image_index + length page_images)
               else ([], image_index))
         else ([path (all_images ! image_index)], image_index + 1))
      else ([], image_index))"

text \<open>Step 4, the \<^verbatim>\<open>while\<close> loop: up to four option images from the cursor on.\<close>

function option_images_loop ::
  "harvested_image list \<Rightarrow> nat \<Rightarrow> string list \<Rightarrow> string list \<times> nat" where
  "option_images_loop all_images image_index option_images =
     (if image_index < length all_images \<and> length option_images < 4
      then option_images_loop all_images (image_index + 1)
             (option_images @ [path (all_images ! image_index)])
      else (option_images, image_index))"
  by pat_completeness auto
termination
  by (relation "measure (\<lambda>(all_images, image_index, option_images). length all_images - image_index)")
     auto

declare option_images_loop.simps [simp del]

text \<open>
  A record is the \<^verbatim>\<open>dict\<close> the code builds: its keys in insertion order, each with a JSON
  value. A key that was never set is absent from the list; \<^verbatim>\<open>None\<close> is the value \<open>JNull\<close>.
\<close>

datatype jvalue = JNull | JStr string | JStrList "string list" | JOptions "option_entry list"

type_synonym question_obj = "(string \<times> jvalue) list"

definition process_question ::
  "harvested_image list \<Rightarrow> nat \<Rightarrow> string \<Rightarrow> question_obj \<times> nat" where
  "process_question all_images image_index q_text =
     (let clean_text = clean_question_text q_text;
          current_page = recover_page q_text;
          (question_images, image_index1) =
             attach_primary all_images image_index clean_text current_page;
          (option_images, image_index2) = option_images_loop all_images image_index1 [];
          question_obj = [(''question'', JStr clean_text),
                          (''images'', case question_images of [] \<Rightarrow> JNull | x # _ \<Rightarrow> JStr x)]
      in (if option_images \<noteq> [] then question_obj @ [(''option_images'', JStrList option_images)]
          else (let options = extract_options q_text
                in if options \<noteq> [] then question_obj @ [(''options'', JOptions options)]
                   else question_obj),
          image_index2))"

text \<open>The loop over the spans, from the cursor \<open>image_index\<close> on.\<close>

fun assemble :: "harvested_image list \<Rightarrow> nat \<Rightarrow> string list \<Rightarrow> question_obj list" where
  "assemble all_images image_index [] = []"
| "assemble all_images image_index (q_text # rest) =
     (if skipped_span q_text then assemble all_images image_index rest
      else (let (question_obj, image_index') = process_question all_images image_index q_text
            in question_obj # assemble all_images image_index' rest))"

definition extract_content ::
  "('b \<Rightarrow> 'h option) \<Rightarrow> ('b \<Rightarrow> string \<Rightarrow> bool) \<Rightarrow> 'h extractor \<Rightarrow> 'b pdf_page list \<Rightarrow>
   error + question_obj list" where
  "extract_content get_image_hash save_image self doc =
     (case harvest_images get_image_hash save_image self 0 doc of
        Inl e \<Rightarrow> Inl e
      | Inr all_images \<Rightarrow>
          (case collect_text get_image_hash self 0 doc of
             Inl e \<Rightarrow> Inl e
           | Inr all_text \<Rightarrow> Inr (assemble all_images 0 (raw_questions all_text))))"

section \<open>Observing the assembly pass\<close>

text \<open>
  The pass keeps its cursor and its candidate lists in local variables. To state what
  happens to them, \<open>steps\<close> lists the spans that are processed (not skipped), each with
  the value of the cursor when its round of the loop begins.
\<close>

fun steps :: "harvested_image list \<Rightarrow> nat \<Rightarrow> string list \<Rightarrow> (string \<times> nat) list" where
  "steps all_images image_index [] = []"
| "steps all_images image_index (q_text # rest) =
     (if skipped_span q_text then steps all_images image_index rest
      else (q_text, image_index)
           # steps all_images (snd (process_question all_images image_index q_text)) rest)"

text \<open>The locals of one round: \<^verbatim>\<open>question_images\<close>, and the cursor after steps 3 and 4.\<close>

definition question_images_of :: "harvested_image list \<Rightarrow> string \<times> nat \<Rightarrow> string list" where
  "question_images_of all_images = (\<lambda>(q_text, image_index).
     fst (attach_primary all_images image_index (clean_question_text q_text) (recover_page q_text)))"

definition cursor_after_primary :: "harvested_image list \<Rightarrow> string \<times> nat \<Rightarrow> nat" where
  "cursor_after_primary all_images = (\<lambda>(q_text, image_index).
     snd (attach_primary all_images image_index (clean_question_text q_text) (recover_page q_text)))"

definition cursor_after_options :: "harvested_image list \<Rightarrow> string \<times> nat \<Rightarrow> nat" where
  "cursor_after_options all_images st =
     snd (option_images_loop all_images (cursor_after_primary all_images st) [])"

text \<open>
  Whether step 3 of a round takes the branch that selects by page, and the positions in
  \<^verbatim>\<open>all_images\<close> of the images the round attaches: as candidates for the question's own
  image, and as option images (the positions the \<^verbatim>\<open>while\<close> loop walks over).
\<close>

definition page_based :: "harvested_image list \<Rightarrow> string \<times> nat \<Rightarrow> bool" where
  "page_based all_images = (\<lambda>(q_text, image_index).
     image_index < length all_images
     \<and> (is_question_with_image (clean_question_text q_text) \<or> truthy (recover_page q_text)))"

definition primary_positions :: "harvested_image list \<Rightarrow> string \<times> nat \<Rightarrow> nat list" where
  "primary_positions all_images = (\<lambda>(q_text, image_index).
     if image_index < length all_images then
       (if is_question_with_image (clean_question_text q_text) \<or> truthy (recover_page q_text)
        then filter (\<lambda>i. Some (page (all_images ! i)) = recover_page q_text) [0..<length all_images]
        else [image_index])
     else [])"

definition option_positions :: "harvested_image list \<Rightarrow> string \<times> nat \<Rightarrow> nat list" where
  "option_positions all_images st =
     [cursor_after_primary all_images st ..< cursor_after_options all_images st]"

definition attached_positions :: "harvested_image list \<Rightarrow> string list \<Rightarrow> nat list" where
  "attached_positions all_images spans =
     concat (map (\<lambda>st. primary_positions all_images st @ option_positions all_images st)
                 (steps all_images 0 spans))"

text \<open>
  The positions a round attaches through the cursor: the one image of the branch of step 3
  that reads \<^verbatim>\<open>all_images[image_index]\<close>, and the option images.
\<close>

definition round_cursor_positions :: "harvested_image list \<Rightarrow> string \<times> nat \<Rightarrow> nat list" where
  "round_cursor_positions all_images st =
     (if page_based all_images st then [] else primary_positions all_images st)
     @ option_positions all_images st"

definition cursor_attached_positions :: "harvested_image list \<Rightarrow> string list \<Rightarrow> nat list" where
  "cursor_attached_positions all_images spans =
     concat (map (round_cursor_positions all_images) (steps all_images 0 spans))"

text \<open>
  Every value the cursor takes during the pass, in order: its initial value, then for each
  round the value after step 3 and the value after each turn of the \<^verbatim>\<open>while\<close> loop.
\<close>

definition round_cursors :: "harvested_image list \<Rightarrow> string \<times> nat \<Rightarrow> nat list" where
  "round_cursors all_images st =
     cursor_after_primary all_images st
     # [Suc (cursor_after_primary all_images st) ..< Suc (cursor_after_options all_images st)]"

definition cursor_trace :: "harvested_image list \<Rightarrow> string list \<Rightarrow> nat list" where
  "cursor_trace all_images spans =
     0 # concat (map (round_cursors all_images) (steps all_images 0 spans))"

definition has_key :: "question_obj \<Rightarrow> string \<Rightarrow> bool" where
  "has_key obj k \<longleftrightarrow> k \<in> set (map fst obj)"

section \<open>The page walks as the specification words them\<close>

text \<open>
  A page is skipped when its trimmed text is empty, it holds exactly one embedded image,
  a logo fingerprint exists, and that image's fingerprint equals it.
\<close>

definition spec_page_skipped :: "('b \<Rightarrow> 'h option) \<Rightarrow> 'h extractor \<Rightarrow> 'b pdf_page \<Rightarrow> bool" where
  "spec_page_skipped get_image_hash self pg \<longleftrightarrow>
     strip (page_text pg) = [] \<and> length (page_images pg) = 1
     \<and> vedantu_logo_hash self \<noteq> None
     \<and> get_image_hash (image_bytes (hd (page_images pg))) = vedantu_logo_hash self"

text \<open>Every other page gives its marker, and its trimmed text right behind it.\<close>

definition spec_text_blob ::
  "('b \<Rightarrow> 'h option) \<Rightarrow> 'h extractor \<Rightarrow> nat \<Rightarrow> 'b pdf_page list \<Rightarrow> string" where
  "spec_text_blob get_image_hash self page_number pgs =
     concat (map (\<lambda>(n, pg). if spec_page_skipped get_image_hash self pg then []
                             else page_marker n @ strip (page_text pg))
                 (zip [page_number ..< page_number + length pgs] pgs))"

text \<open>
  The one way the text walk can abort: a page that passes the first three tests and whose
  single image the decoder rejects.
\<close>

definition undecodable_candidate :: "('b \<Rightarrow> 'h option) \<Rightarrow> 'h extractor \<Rightarrow> 'b pdf_page \<Rightarrow> bool" where
  "undecodable_candidate get_image_hash self pg \<longleftrightarrow>
     strip (page_text pg) = [] \<and> length (page_images pg) = 1
     \<and> vedantu_logo_hash self \<noteq> None
     \<and> get_image_hash (image_bytes (hd (page_images pg))) = None"

text \<open>
  The harvest with no logo test at all: every image of an accepted format whose file
  could be written, in document order.
\<close>

definition unfiltered_page ::
  "('b \<Rightarrow> string \<Rightarrow> bool) \<Rightarrow> nat \<Rightarrow> nat \<Rightarrow> 'b embedded_image list \<Rightarrow> harvested_image list" where
  "unfiltered_page save_image page_number img_index imgs =
     concat (map (\<lambda>(k, img).
                    if lower (image_ext img) \<in> set VALID_IMAGE_EXTS
                       \<and> save_image (image_bytes img) (image_path page_number k (lower (image_ext img)))
                    then [\<lparr>page = page_number + 1, path = image_path page_number k (lower (image_ext img))\<rparr>]
                    else [])
                 (zip [img_index ..< img_index + length imgs] imgs))"

definition unfiltered_harvest ::
  "('b \<Rightarrow> string \<Rightarrow> bool) \<Rightarrow> nat \<Rightarrow> 'b pdf_page list \<Rightarrow> harvested_image list" where
  "unfiltered_harvest save_image page_number pgs =
     concat (map (\<lambda>(n, pg). unfiltered_page save_image n 1 (page_images pg))
                 (zip [page_number ..< page_number + length pgs] pgs))"

definition unfiltered_text :: "nat \<Rightarrow> 'b pdf_page list \<Rightarrow> string" where
  "unfiltered_text page_number pgs =
     concat (map (\<lambda>(n, pg). page_marker n @ strip (page_text pg))
                 (zip [page_number ..< page_number + length pgs] pgs))"

section \<open>Notions used to state the claims about the text helpers\<close>

text \<open>No match of the pattern begins at any of the first \<open>n\<close> positions of the text.\<close>

fun no_match_before :: "matcher \<Rightarrow> nat \<Rightarrow> string \<Rightarrow> bool" where
  "no_match_before m 0 s \<longleftrightarrow> True"
| "no_match_before m (Suc n) s \<longleftrightarrow>
     re_match m s = None \<and> (case s of [] \<Rightarrow> True | c # cs \<Rightarrow> no_match_before m n cs)"


section \<open>A sample run\<close>

text \<open>
  A document of four pages, with image bytes and fingerprints both written as numbers, a
  decoder that accepts every image, and a disk that takes every file. The logo has the
  fingerprint 99. Page 1 reads \<^verbatim>\<open>1. foo\<close>, \<^verbatim>\<open>2. bar\<close> on two lines and holds one image;
  page 2 reads \<^verbatim>\<open>3. baz\<close> and holds five; page 3 is blank but for the logo; page 4 is
  empty.
\<close>

definition sample_document :: "nat pdf_page list" where
  "sample_document =
     [\<lparr>page_text = ''1. foo\<newline>2. bar'',
       page_images = [\<lparr>image_bytes = 11, image_ext = ''png''\<rparr>]\<rparr>,
      \<lparr>page_text = ''3. baz\<newline>'',
       page_images = [\<lparr>image_bytes = 21, image_ext = ''png''\<rparr>,
                      \<lparr>image_bytes = 22, image_ext = ''png''\<rparr>,
                      \<lparr>image_bytes = 23, image_ext = ''png''\<rparr>,
                      \<lparr>image_bytes = 24, image_ext = ''png''\<rparr>,
                      \<lparr>image_bytes = 25, image_ext = ''png''\<rparr>]\<rparr>,
      \<lparr>page_text = '' '', page_images = [\<lparr>image_bytes = 99, image_ext = ''jpeg''\<rparr>]\<rparr>,
      \<lparr>page_text = [], page_images = []\<rparr>]"

definition sample_extractor :: "nat extractor" where
  "sample_extractor = \<lparr>vedantu_logo_hash = Some 99\<rparr>"

text \<open>
  The harvest of the sample document gives the six images below, and its text, once
  segmented, the three spans: the second one ends with the tag of page 2, which follows it
  in the text, and the third one with the tag of page 4.
\<close>

definition sample_images :: "harvested_image list" where
  "sample_images = [\<lparr>page = 1, path = ''output/images/page1_image1.png''\<rparr>,
                    \<lparr>page = 2, path = ''output/images/page2_image1.png''\<rparr>,
                    \<lparr>page = 2, path = ''output/images/page2_image2.png''\<rparr>,
                    \<lparr>page = 2, path = ''output/images/page2_image3.png''\<rparr>,
                    \<lparr>page = 2, path = ''output/images/page2_image4.png''\<rparr>,
                    \<lparr>page = 2, path = ''output/images/page2_image5.png''\<rparr>]"

definition sample_text :: string where
  "sample_text =
     ''\<newline>---page1---\<newline>1. foo\<newline>2. bar\<newline>---page2---\<newline>3. baz\<newline>---page4---\<newline>''"

definition sample_spans :: "string list" where
  "sample_spans = [''1. foo'', ''2. bar\<newline>---page2---'', ''3. baz\<newline>---page4---'']"



text \<open>The scenario span of the specification.\<close>

definition scenario_span :: string where
  "scenario_span = ''1. What is 2+2? [A] 3 [B] 4 [C] 5 [D] 6''"

section \<open>The cursor of the assembly pass\<close>

lemma loop_snd_ge: "image_index \<le> snd (option_images_loop all_images image_index acc)"
proof (induction all_images image_index acc rule: option_images_loop.induct)
  case (1 all_images image_index option_images)
  show ?case
  proof (cases "image_index < length all_images \<and> length option_images < 4")
    case True
    with 1 show ?thesis by (subst option_images_loop.simps) auto
  next
    case False
    then show ?thesis by (subst option_images_loop.simps) auto
  qed
qed

lemma loop_snd_le:
  "snd (option_images_loop all_images image_index acc) \<le> max image_index (length all_images)"
proof (induction all_images image_index acc rule: option_images_loop.induct)
  case (1 all_images image_index option_images)
  show ?case
  proof (cases "image_index < length all_images \<and> length option_images < 4")
    case True
    with 1 show ?thesis by (subst option_images_loop.simps) auto
  next
    case False
    then show ?thesis by (subst option_images_loop.simps) auto
  qed
qed

lemma attach_primary_ge:
  "image_index \<le> snd (attach_primary all_images image_index clean_text current_page)"
  by (simp add: attach_primary_def Let_def)

lemma attach_primary_bound:
  "snd (attach_primary all_images image_index clean_text current_page)
     \<le> max image_index (2 * length all_images - 1)"
proof -
  define n where "n = length (filter (\<lambda>img. Some (page img) = current_page) all_images)"
  have "n \<le> length all_images"
    unfolding n_def by (rule length_filter_le)
  then have "image_index < length all_images \<Longrightarrow> image_index + n \<le> 2 * length all_images - 1"
    by arith
  then show ?thesis
    by (auto simp: attach_primary_def Let_def n_def)
qed

lemma process_question_snd:
  "snd (process_question all_images image_index q_text)
     = cursor_after_options all_images (q_text, image_index)"
  by (simp add: process_question_def cursor_after_options_def cursor_after_primary_def Let_def
           split: prod.splits)

lemma assemble_steps:
  "assemble all_images image_index spans =
     map (\<lambda>(q_text, i). fst (process_question all_images i q_text))
         (steps all_images image_index spans)"
  by (induction spans arbitrary: image_index) (auto simp: Let_def split: prod.splits)

lemma cursor_after_primary_ge: "i \<le> cursor_after_primary all_images (q, i)"
  by (simp add: cursor_after_primary_def attach_primary_ge)

lemma cursor_after_options_ge:
  "cursor_after_primary all_images st \<le> cursor_after_options all_images st"
  by (simp add: cursor_after_options_def loop_snd_ge)

lemma cursor_after_options_le:
  "cursor_after_options all_images st \<le> max (cursor_after_primary all_images st) (length all_images)"
  by (simp add: cursor_after_options_def loop_snd_le)

lemma round_cursors_upt:
  "round_cursors all_images st =
     [cursor_after_primary all_images st ..< Suc (cursor_after_options all_images st)]"
proof -
  have "cursor_after_primary all_images st < Suc (cursor_after_options all_images st)"
    using cursor_after_options_ge [of all_images st] by simp
  then show ?thesis
    unfolding round_cursors_def by (rule upt_conv_Cons [symmetric])
qed

lemma round_cursors_sorted: "sorted (round_cursors all_images st)"
  unfolding round_cursors_upt by (rule sorted_upt)

lemma round_cursors_range:
  assumes "c \<in> set (round_cursors all_images (q, i))"
  shows "i \<le> c \<and> c \<le> cursor_after_options all_images (q, i)"
  using assms cursor_after_primary_ge [of i all_images q]
  by (auto simp: round_cursors_upt)

lemma round_cursors_last:
  "cursor_after_options all_images st \<in> set (round_cursors all_images st)"
  using cursor_after_options_ge [of all_images st] by (simp add: round_cursors_upt)

lemma trace_from_ge:
  "c \<in> set (concat (map (round_cursors all_images) (steps all_images i spans))) \<Longrightarrow> i \<le> c"
proof (induction spans arbitrary: i)
  case Nil
  then show ?case by simp
next
  case (Cons q rest)
  show ?case
  proof (cases "skipped_span q")
    case True
    with Cons show ?thesis by simp
  next
    case False
    with Cons.prems consider
      (here) "c \<in> set (round_cursors all_images (q, i))"
      | (later) "c \<in> set (concat (map (round_cursors all_images)
                   (steps all_images (cursor_after_options all_images (q, i)) rest)))"
      by (auto simp: process_question_snd)
    then show ?thesis
    proof cases
      case here
      then show ?thesis using round_cursors_range by blast
    next
      case later
      then have "cursor_after_options all_images (q, i) \<le> c" by (rule Cons.IH)
      moreover have "i \<le> cursor_after_options all_images (q, i)"
        using cursor_after_primary_ge [of i all_images q]
          cursor_after_options_ge [of all_images "(q, i)"] by simp
      ultimately show ?thesis by simp
    qed
  qed
qed

lemma trace_from_sorted:
  "sorted (concat (map (round_cursors all_images) (steps all_images i spans)))"
proof (induction spans arbitrary: i)
  case Nil
  then show ?case by simp
next
  case (Cons q rest)
  show ?case
  proof (cases "skipped_span q")
    case True
    with Cons show ?thesis by simp
  next
    case False
    have "\<forall>x\<in>set (round_cursors all_images (q, i)).
            \<forall>y\<in>set (concat (map (round_cursors all_images)
                   (steps all_images (cursor_after_options all_images (q, i)) rest))). x \<le> y"
      using round_cursors_range trace_from_ge by (meson order_trans)
    with False Cons.IH [of "cursor_after_options all_images (q, i)"] show ?thesis
      by (simp add: process_question_snd sorted_append round_cursors_sorted)
  qed
qed

lemma round_cursors_bound:
  assumes "c \<in> set (round_cursors all_images (q, i))"
  shows "c \<le> max i (2 * length all_images - 1)"
proof -
  have a: "cursor_after_primary all_images (q, i) \<le> max i (2 * length all_images - 1)"
    using attach_primary_bound [of all_images i "clean_question_text q" "recover_page q"]
    by (simp add: cursor_after_primary_def)
  have "c \<le> cursor_after_options all_images (q, i)"
    using assms round_cursors_range by blast
  also have "\<dots> \<le> max (cursor_after_primary all_images (q, i)) (length all_images)"
    by (rule cursor_after_options_le)
  also have "\<dots> \<le> max i (2 * length all_images - 1)"
  proof (cases "length all_images = 0")
    case True
    then have "cursor_after_primary all_images (q, i) = i"
      by (simp add: cursor_after_primary_def attach_primary_def)
    with True show ?thesis by simp
  next
    case False
    then have "length all_images \<le> 2 * length all_images - 1" by arith
    with a show ?thesis by simp
  qed
  finally show ?thesis .
qed

lemma trace_from_bound:
  "c \<in> set (concat (map (round_cursors all_images) (steps all_images i spans)))
     \<Longrightarrow> c \<le> max i (2 * length all_images - 1)"
proof (induction spans arbitrary: i)
  case Nil
  then show ?case by simp
next
  case (Cons q rest)
  show ?case
  proof (cases "skipped_span q")
    case True
    with Cons show ?thesis by simp
  next
    case False
    with Cons.prems consider
      (here) "c \<in> set (round_cursors all_images (q, i))"
      | (later) "c \<in> set (concat (map (round_cursors all_images)
                   (steps all_images (cursor_after_options all_images (q, i)) rest)))"
      by (auto simp: process_question_snd)
    then show ?thesis
    proof cases
      case here
      then show ?thesis by (rule round_cursors_bound)
    next
      case later
      then have "c \<le> max (cursor_after_options all_images (q, i)) (2 * length all_images - 1)"
        by (rule Cons.IH)
      moreover have "cursor_after_options all_images (q, i) \<le> max i (2 * length all_images - 1)"
        using round_cursors_last by (rule round_cursors_bound)
      ultimately show ?thesis by simp
    qed
  qed
qed

subsection \<open>The positions attached through the cursor\<close>

lemma option_positions_lt:
  assumes "k \<in> set (option_positions all_images st)"
  shows "k < length all_images"
proof -
  from assms have "cursor_after_primary all_images st \<le> k"
    and "k < cursor_after_options all_images st"
    by (simp_all add: option_positions_def)
  with cursor_after_options_le [of all_images st] show ?thesis by simp
qed

lemma round_cursor_positions_upt:
  "\<exists>k\<ge>i. round_cursor_positions all_images (q, i) = [k ..< cursor_after_options all_images (q, i)]
          \<and> (\<forall>p\<in>set (round_cursor_positions all_images (q, i)). p < length all_images)"
proof (cases "page_based all_images (q, i)")
  case True
  then have "round_cursor_positions all_images (q, i) =
      [cursor_after_primary all_images (q, i) ..< cursor_after_options all_images (q, i)]"
    by (simp add: round_cursor_positions_def option_positions_def)
  moreover have "\<forall>p\<in>set (round_cursor_positions all_images (q, i)). p < length all_images"
    using True option_positions_lt by (simp add: round_cursor_positions_def)
  ultimately show ?thesis
    using cursor_after_primary_ge [of i all_images q] by blast
next
  case False
  show ?thesis
  proof (cases "i < length all_images")
    case True
    with False have prim: "primary_positions all_images (q, i) = [i]"
      and c1: "cursor_after_primary all_images (q, i) = Suc i"
      by (simp_all add: page_based_def primary_positions_def cursor_after_primary_def
            attach_primary_def)
    have "Suc i \<le> cursor_after_options all_images (q, i)"
      using cursor_after_options_ge [of all_images "(q, i)"] c1 by simp
    then have "[i ..< cursor_after_options all_images (q, i)]
        = i # [Suc i ..< cursor_after_options all_images (q, i)]"
      by (simp add: upt_conv_Cons)
    with False prim c1
    have eq: "round_cursor_positions all_images (q, i) = [i ..< cursor_after_options all_images (q, i)]"
      by (simp add: round_cursor_positions_def option_positions_def)
    have "\<forall>p\<in>set (round_cursor_positions all_images (q, i)). p < length all_images"
      using False prim True option_positions_lt
      by (auto simp: round_cursor_positions_def)
    with eq show ?thesis by blast
  next
    case ge: False
    then have prim: "primary_positions all_images (q, i) = []"
      and c1: "cursor_after_primary all_images (q, i) = i"
      by (simp_all add: primary_positions_def cursor_after_primary_def attach_primary_def)
    with False
    have eq: "round_cursor_positions all_images (q, i) = [i ..< cursor_after_options all_images (q, i)]"
      by (simp add: round_cursor_positions_def option_positions_def)
    have "\<forall>p\<in>set (round_cursor_positions all_images (q, i)). p < length all_images"
      using False prim option_positions_lt
      by (auto simp: round_cursor_positions_def)
    with eq show ?thesis by blast
  qed
qed

lemma cursor_positions_from:
  "sorted_wrt (<) (concat (map (round_cursor_positions all_images) (steps all_images i spans)))
   \<and> (\<forall>p\<in>set (concat (map (round_cursor_positions all_images) (steps all_images i spans))).
         i \<le> p \<and> p < length all_images)"
proof (induction spans arbitrary: i)
  case Nil
  then show ?case by simp
next
  case (Cons q rest)
  show ?case
  proof (cases "skipped_span q")
    case True
    with Cons show ?thesis by simp
  next
    case False
    let ?c2 = "cursor_after_options all_images (q, i)"
    let ?here = "round_cursor_positions all_images (q, i)"
    let ?later = "concat (map (round_cursor_positions all_images) (steps all_images ?c2 rest))"
    from round_cursor_positions_upt [of i all_images q]
    obtain k where k: "i \<le> k" "?here = [k ..< ?c2]"
      and lt: "\<forall>p\<in>set ?here. p < length all_images"
      by blast
    have ih: "sorted_wrt (<) ?later" "\<forall>p\<in>set ?later. ?c2 \<le> p \<and> p < length all_images"
      using Cons.IH [of ?c2] by simp_all
    have i_c2: "i \<le> ?c2"
      using cursor_after_primary_ge [of i all_images q]
        cursor_after_options_ge [of all_images "(q, i)"] by simp
    have here_range: "k \<le> x \<and> x < ?c2" if "x \<in> set ?here" for x
      using that unfolding k(2) by simp
    have later_range: "?c2 \<le> y \<and> y < length all_images" if "y \<in> set ?later" for y
      using that ih(2) by blast
    have "sorted_wrt (<) ?here"
      unfolding k(2) by (rule sorted_wrt_upt)
    moreover have "\<forall>x\<in>set ?here. \<forall>y\<in>set ?later. x < y"
      using here_range later_range by fastforce
    ultimately have "sorted_wrt (<) (?here @ ?later)"
      using ih(1) unfolding sorted_wrt_append by blast
    moreover have "\<forall>p\<in>set (?here @ ?later). i \<le> p \<and> p < length all_images"
    proof
      fix p assume "p \<in> set (?here @ ?later)"
      then consider "p \<in> set ?here" | "p \<in> set ?later"
        by (metis Un_iff set_append)
      then show "i \<le> p \<and> p < length all_images"
      proof cases
        case 1
        with here_range k(1) lt show ?thesis by fastforce
      next
        case 2
        with later_range i_c2 show ?thesis by fastforce
      qed
    qed
    moreover have "concat (map (round_cursor_positions all_images) (steps all_images i (q # rest)))
        = ?here @ ?later"
      using False by (simp add: process_question_snd)
    ultimately show ?thesis
      by (simp only:)
  qed
qed

text \<open>
  The positions name the images that the code attaches: the candidates of step 3 and the
  option images of step 4 are the paths at these positions.
\<close>

lemma filter_by_position:
  "map (\<lambda>i. xs ! i) (filter (\<lambda>i. P (xs ! i)) [0..<length xs]) = filter P xs"
proof (induction xs rule: rev_induct)
  case Nil
  then show ?case by simp
next
  case (snoc x xs)
  have "map (\<lambda>i. (xs @ [x]) ! i) (filter (\<lambda>i. P ((xs @ [x]) ! i)) [0..<length xs])
      = map (\<lambda>i. xs ! i) (filter (\<lambda>i. P (xs ! i)) [0..<length xs])"
    by (intro map_cong filter_cong) (auto simp: nth_append)
  with snoc show ?case by simp
qed

lemma question_images_at_positions:
  "question_images_of all_images st =
     map (\<lambda>i. path (all_images ! i)) (primary_positions all_images st)"
proof -
  obtain q i where st: "st = (q, i)" by (cases st)
  have "map path (filter (\<lambda>img. Some (page img) = recover_page q) all_images)
      = map (\<lambda>i. path (all_images ! i))
            (filter (\<lambda>i. Some (page (all_images ! i)) = recover_page q) [0..<length all_images])"
    using filter_by_position [of all_images "\<lambda>img. Some (page img) = recover_page q", symmetric]
    by (simp add: comp_def)
  moreover from this
  have "filter (\<lambda>img. Some (page img) = recover_page q) all_images = [] \<longleftrightarrow>
        filter (\<lambda>i. Some (page (all_images ! i)) = recover_page q) [0..<length all_images] = []"
    by (metis map_is_Nil_conv)
  ultimately show ?thesis
    by (simp add: st question_images_of_def primary_positions_def attach_primary_def Let_def)
qed

lemma loop_fst:
  "fst (option_images_loop all_images image_index acc) =
     acc @ map (\<lambda>k. path (all_images ! k))
               [image_index ..< snd (option_images_loop all_images image_index acc)]"
proof (induction all_images image_index acc rule: option_images_loop.induct)
  case (1 all_images image_index option_images)
  show ?case
  proof (cases "image_index < length all_images \<and> length option_images < 4")
    case True
    have "Suc image_index \<le> snd (option_images_loop all_images (Suc image_index)
             (option_images @ [path (all_images ! image_index)]))"
      by (rule loop_snd_ge)
    then have "[image_index ..< snd (option_images_loop all_images (Suc image_index)
             (option_images @ [path (all_images ! image_index)]))]
        = image_index # [Suc image_index ..< snd (option_images_loop all_images (Suc image_index)
             (option_images @ [path (all_images ! image_index)]))]"
      by (simp add: upt_conv_Cons)
    with True 1 show ?thesis by (subst (1 2) option_images_loop.simps) simp
  next
    case False
    then show ?thesis by (subst (1 2) option_images_loop.simps) auto
  qed
qed

lemma option_images_at_positions:
  "fst (option_images_loop all_images (cursor_after_primary all_images st) []) =
     map (\<lambda>i. path (all_images ! i)) (option_positions all_images st)"
  using loop_fst [of all_images "cursor_after_primary all_images st" "[]"]
  by (simp add: option_positions_def cursor_after_options_def)

lemma process_question_images_at:
  "map_of (fst (process_question all_images i q)) ''images'' =
     Some (case primary_positions all_images (q, i) of
             [] \<Rightarrow> JNull | p # _ \<Rightarrow> JStr (path (all_images ! p)))"
proof -
  have "map_of (fst (process_question all_images i q)) ''images'' =
      Some (case question_images_of all_images (q, i) of [] \<Rightarrow> JNull | x # _ \<Rightarrow> JStr x)"
    by (simp add: process_question_def question_images_of_def Let_def split: prod.splits)
  then show ?thesis
    unfolding question_images_at_positions
    by (cases "primary_positions all_images (q, i)") simp_all
qed

lemma process_question_option_images_at:
  "map_of (fst (process_question all_images i q)) ''option_images'' =
     (if option_positions all_images (q, i) = [] then None
      else Some (JStrList (map (\<lambda>k. path (all_images ! k)) (option_positions all_images (q, i)))))"
proof -
  define oi where "oi = fst (option_images_loop all_images (cursor_after_primary all_images (q, i)) [])"
  have "map_of (fst (process_question all_images i q)) ''option_images'' =
      (if oi = [] then None else Some (JStrList oi))"
    by (simp add: process_question_def oi_def cursor_after_primary_def Let_def
             split: prod.splits)
  moreover have "oi = map (\<lambda>k. path (all_images ! k)) (option_positions all_images (q, i))"
    unfolding oi_def by (rule option_images_at_positions)
  ultimately show ?thesis by simp
qed

subsection \<open>The sample run, evaluated\<close>

lemma sample_text_1:
  "clean_question_text ''1. foo'' = ''1. foo''" "recover_page ''1. foo'' = None"
  "\<not> is_question_with_image ''1. foo''" "\<not> skipped_span ''1. foo''"
  by code_simp+

lemma sample_text_2:
  "clean_question_text ''2. bar\<newline>---page2---'' = ''2. bar''"
  "recover_page ''2. bar\<newline>---page2---'' = Some 2"
  "\<not> skipped_span ''2. bar\<newline>---page2---''"
  "extract_options ''2. bar\<newline>---page2---'' = []"
  by code_simp+

lemma sample_text_3:
  "clean_question_text ''3. baz\<newline>---page4---'' = ''3. baz''"
  "recover_page ''3. baz\<newline>---page4---'' = Some 4"
  "\<not> skipped_span ''3. baz\<newline>---page4---''"
  "extract_options ''3. baz\<newline>---page4---'' = []"
  by code_simp+

lemma sample_length: "length sample_images = 6"
  by (simp add: sample_images_def)

lemma sample_round_1:
  "attach_primary sample_images 0 ''1. foo'' None = ([''output/images/page1_image1.png''], 1)"
  "option_images_loop sample_images (Suc 0) [] = ([''output/images/page2_image1.png'', ''output/images/page2_image2.png'', ''output/images/page2_image3.png'', ''output/images/page2_image4.png''], 5)"
  "primary_positions sample_images (''1. foo'', 0) = [0]"
  "\<not> page_based sample_images (''1. foo'', 0)"
  by (simp_all add: attach_primary_def primary_positions_def page_based_def truthy_def
        sample_text_1 option_images_loop.simps sample_images_def)

lemma sample_round_2:
  "attach_primary sample_images 5 ''2. bar'' (Some 2) = ([''output/images/page2_image1.png'', ''output/images/page2_image2.png'', ''output/images/page2_image3.png'', ''output/images/page2_image4.png'', ''output/images/page2_image5.png''], 10)"
  "option_images_loop sample_images 10 [] = ([], 10)"
  "primary_positions sample_images (''2. bar\<newline>---page2---'', 5) = [1, 2, 3, 4, 5]"
  "page_based sample_images (''2. bar\<newline>---page2---'', 5)"
  by (simp_all add: attach_primary_def primary_positions_def page_based_def truthy_def
        sample_text_2 option_images_loop.simps sample_images_def upt_rec)

lemma sample_round_3:
  "attach_primary sample_images 10 ''3. baz'' (Some 4) = ([], 10)"
  "primary_positions sample_images (''3. baz\<newline>---page4---'', 10) = []"
  "\<not> page_based sample_images (''3. baz\<newline>---page4---'', 10)"
  by (simp_all add: attach_primary_def primary_positions_def page_based_def sample_images_def)

lemma sample_process:
  "process_question sample_images 0 ''1. foo'' =
     ([(''question'', JStr ''1. foo''), (''images'', JStr ''output/images/page1_image1.png''),
       (''option_images'', JStrList [''output/images/page2_image1.png'', ''output/images/page2_image2.png'', ''output/images/page2_image3.png'', ''output/images/page2_image4.png''])], 5)"
  "process_question sample_images 5 ''2. bar\<newline>---page2---'' =
     ([(''question'', JStr ''2. bar''), (''images'', JStr ''output/images/page2_image1.png'')], 10)"
  "process_question sample_images 10 ''3. baz\<newline>---page4---'' =
     ([(''question'', JStr ''3. baz''), (''images'', JNull)], 10)"
  by (simp_all add: process_question_def sample_text_1 sample_text_2 sample_text_3
        sample_round_1 sample_round_2 sample_round_3)

lemma sample_steps:
  "steps sample_images 0 sample_spans =
     [(''1. foo'', 0), (''2. bar\<newline>---page2---'', 5), (''3. baz\<newline>---page4---'', 10)]"
  by (simp add: sample_spans_def sample_process sample_text_1 sample_text_2 sample_text_3)

lemma sample_assemble:
  "assemble sample_images 0 sample_spans =
     [[(''question'', JStr ''1. foo''), (''images'', JStr ''output/images/page1_image1.png''),
       (''option_images'', JStrList [''output/images/page2_image1.png'', ''output/images/page2_image2.png'', ''output/images/page2_image3.png'', ''output/images/page2_image4.png''])],
      [(''question'', JStr ''2. bar''), (''images'', JStr ''output/images/page2_image1.png'')],
      [(''question'', JStr ''3. baz''), (''images'', JNull)]]"
  by (simp add: sample_spans_def sample_process sample_text_1 sample_text_2 sample_text_3)

lemma sample_cursors:
  "cursor_after_primary sample_images (''1. foo'', 0) = 1"
  "cursor_after_options sample_images (''1. foo'', 0) = 5"
  "cursor_after_primary sample_images (''2. bar\<newline>---page2---'', 5) = 10"
  "cursor_after_options sample_images (''2. bar\<newline>---page2---'', 5) = 10"
  "cursor_after_primary sample_images (''3. baz\<newline>---page4---'', 10) = 10"
  "cursor_after_options sample_images (''3. baz\<newline>---page4---'', 10) = 10"
  by (simp_all add: cursor_after_primary_def cursor_after_options_def
        sample_text_1 sample_text_2 sample_text_3 sample_round_1 sample_round_2 sample_round_3)

lemma sample_cursor_trace: "cursor_trace sample_images sample_spans = [0, 1, 2, 3, 4, 5, 10, 10]"
  by (simp add: cursor_trace_def sample_steps round_cursors_def sample_cursors upt_rec)

lemma sample_attached:
  "attached_positions sample_images sample_spans = [0, 1, 2, 3, 4, 1, 2, 3, 4, 5]"
  by (simp add: attached_positions_def sample_steps option_positions_def sample_cursors
        sample_round_1 sample_round_2 sample_round_3 upt_rec)

lemma sample_cursor_attached:
  "cursor_attached_positions sample_images sample_spans = [0, 1, 2, 3, 4]"
  by (simp add: cursor_attached_positions_def round_cursor_positions_def
        sample_steps option_positions_def sample_cursors
        sample_round_1 sample_round_2 sample_round_3 upt_rec)

text \<open>The images and spans of the sample run are those of the sample document.\<close>

lemma sample_harvest:
  "harvest_images Some (\<lambda>bytes file. True) sample_extractor 0 sample_document = Inr sample_images"
  by code_simp

lemma sample_collect:
  "collect_text Some sample_extractor 0 sample_document = Inr sample_text"
  by code_simp

lemma sample_segments: "raw_questions sample_text = sample_spans"
  by code_simp

lemma sample_extract_content:
  "extract_content Some (\<lambda>bytes file. True) sample_extractor sample_document =
     Inr (assemble sample_images 0 sample_spans)"
  by (simp add: extract_content_def sample_harvest sample_collect sample_segments)

section \<open>Claims about the assembly pass\<close>

text \<open>
  Claim C1, as stated: during one pass every harvested image, identified by its position in
  the harvested-image list, is attached to at most one slot (one question's primary-image
  candidates or one question's option images), in harvest order. In the sample run this
  fails: the images at positions 1 to 4 are the option images of question 1 and are again
  among the candidates of question 2, whose span carries the tag of page 2.
\<close>

theorem image_attached_twice_counterexample:
  "\<not> distinct (attached_positions sample_images sample_spans)
   \<and> attached_positions sample_images sample_spans = [0, 1, 2, 3, 4, 1, 2, 3, 4, 5]
   \<and> assemble sample_images 0 sample_spans =
     [[(''question'', JStr ''1. foo''), (''images'', JStr ''output/images/page1_image1.png''),
       (''option_images'',
        JStrList [''output/images/page2_image1.png'', ''output/images/page2_image2.png'',
                  ''output/images/page2_image3.png'', ''output/images/page2_image4.png''])],
      [(''question'', JStr ''2. bar''), (''images'', JStr ''output/images/page2_image1.png'')],
      [(''question'', JStr ''3. baz''), (''images'', JNull)]]"
  by (simp add: sample_attached sample_assemble)

text \<open>
  Claim C1, amended: in every emitted record the \<^verbatim>\<open>images\<close> field is the image at the
  first of the round's primary positions (null when there is none) and the
  \<^verbatim>\<open>option_images\<close> field lists the images at the round's option positions (the field is
  absent when there is none). The positions attached through the cursor (the single next
  image that step 3 takes when it does not select by page, and every option image) are
  strictly increasing over the whole pass and lie inside the harvested-image list. So each
  harvested image is attached through the cursor to at most one slot, in harvest order.
  The selection by page takes all images of the recovered page wherever the cursor stands,
  and is not covered.
\<close>

theorem cursor_attached_positions_increasing:
  "map (\<lambda>obj. (map_of obj ''images'', map_of obj ''option_images''))
       (assemble all_images 0 spans) =
     map (\<lambda>st. (Some (case primary_positions all_images st of
                         [] \<Rightarrow> JNull | p # _ \<Rightarrow> JStr (path (all_images ! p))),
                 if option_positions all_images st = [] then None
                 else Some (JStrList (map (\<lambda>i. path (all_images ! i))
                                          (option_positions all_images st)))))
         (steps all_images 0 spans)
   \<and> cursor_attached_positions all_images spans =
       concat (map (\<lambda>st. (if page_based all_images st then []
                            else primary_positions all_images st)
                           @ option_positions all_images st)
                   (steps all_images 0 spans))
   \<and> sorted_wrt (<) (cursor_attached_positions all_images spans)
   \<and> (\<forall>p\<in>set (cursor_attached_positions all_images spans). p < length all_images)"
proof -
  have fields: "(map_of (fst (process_question all_images i q)) ''images'',
                 map_of (fst (process_question all_images i q)) ''option_images'') =
      (Some (case primary_positions all_images (q, i) of
               [] \<Rightarrow> JNull | p # _ \<Rightarrow> JStr (path (all_images ! p))),
       if option_positions all_images (q, i) = [] then None
       else Some (JStrList (map (\<lambda>i. path (all_images ! i))
                                (option_positions all_images (q, i)))))"
    for q i
    using process_question_images_at [of all_images i q]
      process_question_option_images_at [of all_images i q]
    by simp
  have "map (\<lambda>obj. (map_of obj ''images'', map_of obj ''option_images''))
            (assemble all_images 0 spans) =
        map (\<lambda>st. (Some (case primary_positions all_images st of
                         [] \<Rightarrow> JNull | p # _ \<Rightarrow> JStr (path (all_images ! p))),
                 if option_positions all_images st = [] then None
                 else Some (JStrList (map (\<lambda>i. path (all_images ! i))
                                          (option_positions all_images st)))))
            (steps all_images 0 spans)"
    unfolding assemble_steps by (simp add: case_prod_unfold fields del: map_of_eq_None_iff)
  moreover have "cursor_attached_positions all_images spans =
       concat (map (\<lambda>st. (if page_based all_images st then []
                            else primary_positions all_images st)
                           @ option_positions all_images st)
                   (steps all_images 0 spans))"
    by (simp add: cursor_attached_positions_def round_cursor_positions_def [abs_def])
  moreover have "sorted_wrt (<) (cursor_attached_positions all_images spans)
      \<and> (\<forall>p\<in>set (cursor_attached_positions all_images spans). p < length all_images)"
    using cursor_positions_from [of all_images 0 spans]
    by (simp add: cursor_attached_positions_def)
  ultimately show ?thesis by blast
qed

theorem cursor_attached_positions_increasing_witness:
  "map (\<lambda>obj. map_of obj ''option_images'') (assemble sample_images 0 sample_spans) =
     [Some (JStrList [''output/images/page2_image1.png'', ''output/images/page2_image2.png'',
                      ''output/images/page2_image3.png'', ''output/images/page2_image4.png'']),
      None, None]
   \<and> sorted_wrt (<) (cursor_attached_positions sample_images sample_spans)
   \<and> 4 \<in> set (cursor_attached_positions sample_images sample_spans)
   \<and> 4 < length sample_images"
proof -
  note inst = cursor_attached_positions_increasing [of sample_images sample_spans]
  have mem: "4 \<in> set (cursor_attached_positions sample_images sample_spans)"
    by (simp add: sample_cursor_attached)
  from inst
  have "map (\<lambda>obj. (map_of obj ''images'', map_of obj ''option_images''))
            (assemble sample_images 0 sample_spans) =
        map (\<lambda>st. (Some (case primary_positions sample_images st of
                         [] \<Rightarrow> JNull | p # _ \<Rightarrow> JStr (path (sample_images ! p))),
                 if option_positions sample_images st = [] then None
                 else Some (JStrList (map (\<lambda>i. path (sample_images ! i))
                                          (option_positions sample_images st)))))
            (steps sample_images 0 sample_spans)"
    by blast
  then have "map snd (map (\<lambda>obj. (map_of obj ''images'', map_of obj ''option_images''))
            (assemble sample_images 0 sample_spans)) =
        map snd (map (\<lambda>st. (Some (case primary_positions sample_images st of
                         [] \<Rightarrow> JNull | p # _ \<Rightarrow> JStr (path (sample_images ! p))),
                 if option_positions sample_images st = [] then None
                 else Some (JStrList (map (\<lambda>i. path (sample_images ! i))
                                          (option_positions sample_images st)))))
            (steps sample_images 0 sample_spans))"
    by (rule arg_cong)
  then have "map (\<lambda>obj. map_of obj ''option_images'') (assemble sample_images 0 sample_spans) =
     [Some (JStrList [path (sample_images ! Suc 0), path (sample_images ! Suc (Suc 0)),
                      path (sample_images ! Suc (Suc (Suc 0))),
                      path (sample_images ! Suc (Suc (Suc (Suc 0))))]), None, None]"
    by (simp add: comp_def sample_steps option_positions_def sample_cursors upt_rec
          del: map_of_eq_None_iff)
  moreover have "path (sample_images ! Suc 0) = ''output/images/page2_image1.png''"
    "path (sample_images ! Suc (Suc 0)) = ''output/images/page2_image2.png''"
    "path (sample_images ! Suc (Suc (Suc 0))) = ''output/images/page2_image3.png''"
    "path (sample_images ! Suc (Suc (Suc (Suc 0)))) = ''output/images/page2_image4.png''"
    by (simp_all add: sample_images_def)
  ultimately
  have rec: "map (\<lambda>obj. map_of obj ''option_images'') (assemble sample_images 0 sample_spans) =
     [Some (JStrList [''output/images/page2_image1.png'', ''output/images/page2_image2.png'',
                      ''output/images/page2_image3.png'', ''output/images/page2_image4.png'']),
      None, None]"
    by (simp only:)
  from inst
  have "sorted_wrt (<) (cursor_attached_positions sample_images sample_spans)"
    and "\<forall>p\<in>set (cursor_attached_positions sample_images sample_spans). p < length sample_images"
    by blast+
  with mem rec show ?thesis by blast
qed

text \<open>
  Claim C2, as stated: throughout the pass the cursor is non-decreasing and never exceeds
  the length of the harvested-image list. In the sample run the list has six images and the
  cursor ends at 10: question 2 selects by page and adds the five images of page 2 to a
  cursor that stands at 5.
\<close>

theorem cursor_exceeds_length_counterexample:
  "length sample_images < last (cursor_trace sample_images sample_spans)
   \<and> length sample_images = 6
   \<and> cursor_trace sample_images sample_spans = [0, 1, 2, 3, 4, 5, 10, 10]
   \<and> snd (process_question sample_images 5 ''2. bar\<newline>---page2---'') = 10"
  by (simp add: sample_cursor_trace sample_length sample_process)

text \<open>
  Claim C2, amended: throughout the pass the cursor is non-decreasing, and it never exceeds
  twice the length of the harvested-image list minus one (zero for an empty list).
\<close>

theorem cursor_monotone_and_bounded:
  "sorted (cursor_trace all_images spans)
   \<and> (\<forall>c\<in>set (cursor_trace all_images spans). c \<le> 2 * length all_images - 1)"
proof -
  have "sorted (cursor_trace all_images spans)"
    unfolding cursor_trace_def using trace_from_sorted [of all_images 0 spans] by simp
  moreover have "\<forall>c\<in>set (cursor_trace all_images spans). c \<le> 2 * length all_images - 1"
    unfolding cursor_trace_def using trace_from_bound [of _ all_images 0 spans] by auto
  ultimately show ?thesis by simp
qed

theorem cursor_monotone_and_bounded_witness:
  "sorted (cursor_trace sample_images sample_spans)
   \<and> 10 \<in> set (cursor_trace sample_images sample_spans)
   \<and> 10 \<le> 2 * length sample_images - 1"
proof -
  have mem: "10 \<in> set (cursor_trace sample_images sample_spans)"
    by (simp add: sample_cursor_trace)
  from cursor_monotone_and_bounded [of sample_images sample_spans]
  have "sorted (cursor_trace sample_images sample_spans)"
    and "\<forall>c\<in>set (cursor_trace sample_images sample_spans). c \<le> 2 * length sample_images - 1"
    by blast+
  with mem show ?thesis by blast
qed

text \<open>
  Claim C3: no emitted record has both the key \<^verbatim>\<open>options\<close> and the key
  \<^verbatim>\<open>option_images\<close>.
\<close>

theorem options_never_with_option_images:
  assumes "obj \<in> set (assemble all_images image_index spans)"
  shows "\<not> (has_key obj ''options'' \<and> has_key obj ''option_images'')"
proof -
  from assms obtain q i where "obj = fst (process_question all_images i q)"
    unfolding assemble_steps by auto
  then show ?thesis
    by (simp add: process_question_def has_key_def Let_def split: prod.splits)
qed

theorem options_never_with_option_images_witness:
  "[(''question'', JStr ''1. foo''), (''images'', JStr ''output/images/page1_image1.png''),
    (''option_images'', JStrList [''output/images/page2_image1.png'', ''output/images/page2_image2.png'', ''output/images/page2_image3.png'', ''output/images/page2_image4.png''])]
     \<in> set (assemble sample_images 0 sample_spans)
   \<and> \<not> (has_key [(''question'', JStr ''1. foo''), (''images'', JStr ''output/images/page1_image1.png''),
                  (''option_images'', JStrList [''output/images/page2_image1.png'', ''output/images/page2_image2.png'', ''output/images/page2_image3.png'', ''output/images/page2_image4.png''])] ''options''
        \<and> has_key [(''question'', JStr ''1. foo''), (''images'', JStr ''output/images/page1_image1.png''),
                    (''option_images'', JStrList [''output/images/page2_image1.png'', ''output/images/page2_image2.png'', ''output/images/page2_image3.png'', ''output/images/page2_image4.png''])] ''option_images'')"
proof -
  have mem: "[(''question'', JStr ''1. foo''), (''images'', JStr ''output/images/page1_image1.png''),
              (''option_images'', JStrList [''output/images/page2_image1.png'', ''output/images/page2_image2.png'', ''output/images/page2_image3.png'', ''output/images/page2_image4.png''])]
               \<in> set (assemble sample_images 0 sample_spans)"
    by (simp add: sample_assemble)
  from mem options_never_with_option_images [OF mem] show ?thesis by (rule conjI)
qed

text \<open>
  Claim C6, as stated: the \<^verbatim>\<open>images\<close> field is the first candidate of step 3 when there
  is one, and the record has no \<^verbatim>\<open>images\<close> field at all otherwise. The third record of
  the sample run has no candidate, and it has the key all the same.
\<close>

theorem images_key_present_counterexample:
  "question_images_of sample_images (''3. baz\<newline>---page4---'', 10) = []
   \<and> assemble sample_images 0 sample_spans ! 2 = [(''question'', JStr ''3. baz''), (''images'', JNull)]
   \<and> has_key (assemble sample_images 0 sample_spans ! 2) ''images''"
  by (simp add: sample_assemble question_images_of_def sample_text_3 sample_round_3 has_key_def)

text \<open>
  Claim C6, amended: every emitted record has the key \<^verbatim>\<open>images\<close>; its value is the
  first candidate of step 3 when there is one, and null otherwise.
\<close>

theorem images_field_first_candidate:
  "map (\<lambda>obj. map_of obj ''images'') (assemble all_images image_index spans) =
     map (\<lambda>st. Some (case question_images_of all_images st of [] \<Rightarrow> JNull | x # _ \<Rightarrow> JStr x))
         (steps all_images image_index spans)"
proof -
  have "map_of (fst (process_question all_images i q)) ''images'' =
          Some (case question_images_of all_images (q, i) of [] \<Rightarrow> JNull | x # _ \<Rightarrow> JStr x)"
    for q i
    by (simp add: process_question_def question_images_of_def Let_def split: prod.splits)
  then show ?thesis
    unfolding assemble_steps by (simp add: case_prod_unfold)
qed

theorem images_field_first_candidate_witness:
  "map (\<lambda>obj. map_of obj ''images'') (assemble sample_images 0 sample_spans) =
     [Some (JStr ''output/images/page1_image1.png''), Some (JStr ''output/images/page2_image1.png''), Some JNull]"
  using images_field_first_candidate [of sample_images 0 sample_spans]
  by (simp add: sample_steps question_images_of_def sample_text_1 sample_text_2 sample_text_3
        sample_round_1 sample_round_2 sample_round_3)

section \<open>Claims about the page walks and the logo\<close>

lemma should_skip_page_spec:
  "should_skip_page get_image_hash self (strip (page_text pg)) (page_images pg) =
     (if undecodable_candidate get_image_hash self pg then Inl ImageDecodeError
      else Inr (spec_page_skipped get_image_hash self pg))"
proof (cases "strip (page_text pg) = [] \<and> length (page_images pg) = 1 \<and> vedantu_logo_hash self \<noteq> None")
  case True
  then have "page_images pg ! 0 = hd (page_images pg)"
    by (cases "page_images pg") auto
  with True show ?thesis
    by (auto simp: should_skip_page_def undecodable_candidate_def spec_page_skipped_def
             split: option.splits)
next
  case False
  then show ?thesis
    by (auto simp: should_skip_page_def undecodable_candidate_def spec_page_skipped_def)
qed

lemma zip_upt_Cons:
  "zip [n ..< n + length (x # xs)] (x # xs) = (n, x) # zip [Suc n ..< Suc n + length xs] xs"
  by (simp add: upt_conv_Cons del: upt_Suc)

lemma collect_text_spec:
  "collect_text get_image_hash self page_number pgs =
     (if list_ex (undecodable_candidate get_image_hash self) pgs then Inl ImageDecodeError
      else Inr (spec_text_blob get_image_hash self page_number pgs))"
proof (induction pgs arbitrary: page_number)
  case Nil
  then show ?case by (simp add: spec_text_blob_def)
next
  case (Cons pg pgs)
  have blob: "spec_text_blob get_image_hash self page_number (pg # pgs) =
      (if spec_page_skipped get_image_hash self pg then []
       else page_marker page_number @ strip (page_text pg))
      @ spec_text_blob get_image_hash self (Suc page_number) pgs"
    unfolding spec_text_blob_def zip_upt_Cons by simp
  show ?case
    by (simp add: Cons.IH should_skip_page_spec blob Let_def)
qed

lemma harvest_page_no_logo:
  "harvest_page get_image_hash save_image \<lparr>vedantu_logo_hash = None\<rparr> page_number img_index imgs
     = Inr (unfiltered_page save_image page_number img_index imgs)"
proof (induction imgs arbitrary: img_index)
  case Nil
  then show ?case by (simp add: unfiltered_page_def)
next
  case (Cons img imgs)
  have "unfiltered_page save_image page_number img_index (img # imgs) =
      (if lower (image_ext img) \<in> set VALID_IMAGE_EXTS
          \<and> save_image (image_bytes img) (image_path page_number img_index (lower (image_ext img)))
       then [\<lparr>page = page_number + 1, path = image_path page_number img_index (lower (image_ext img))\<rparr>]
       else [])
      @ unfiltered_page save_image page_number (Suc img_index) imgs"
    unfolding unfiltered_page_def zip_upt_Cons by simp
  then show ?case
    by (simp add: Cons.IH matches_logo_def Let_def)
qed

lemma harvest_images_no_logo:
  "harvest_images get_image_hash save_image \<lparr>vedantu_logo_hash = None\<rparr> page_number pgs
     = Inr (unfiltered_harvest save_image page_number pgs)"
proof (induction pgs arbitrary: page_number)
  case Nil
  then show ?case by (simp add: unfiltered_harvest_def)
next
  case (Cons pg pgs)
  have "unfiltered_harvest save_image page_number (pg # pgs) =
      unfiltered_page save_image page_number 1 (page_images pg)
      @ unfiltered_harvest save_image (Suc page_number) pgs"
    unfolding unfiltered_harvest_def zip_upt_Cons by simp
  then show ?case
    by (simp add: Cons.IH harvest_page_no_logo)
qed

lemma collect_text_no_logo:
  "collect_text get_image_hash \<lparr>vedantu_logo_hash = None\<rparr> page_number pgs
     = Inr (unfiltered_text page_number pgs)"
proof -
  have "\<not> list_ex (undecodable_candidate get_image_hash \<lparr>vedantu_logo_hash = None\<rparr>) pgs"
    by (simp add: list_ex_iff undecodable_candidate_def)
  moreover have "spec_text_blob get_image_hash \<lparr>vedantu_logo_hash = None\<rparr> page_number pgs
      = unfiltered_text page_number pgs"
    by (simp add: spec_text_blob_def unfiltered_text_def spec_page_skipped_def)
  ultimately show ?thesis by (simp add: collect_text_spec)
qed







text \<open>
  Claim C9: when the reference logo file is absent, construction succeeds and stores no
  fingerprint; with such an extractor no page is skipped, no image is compared with the
  logo, and neither walk can abort: the text blob holds every page, and the harvest holds
  every image of an accepted format whose file could be written.
\<close>

theorem absent_logo_disables_filtering:
  "init_extractor get_image_hash None = Inr \<lparr>vedantu_logo_hash = None\<rparr>
   \<and> should_skip_page get_image_hash \<lparr>vedantu_logo_hash = None\<rparr> text0 image_infos = Inr False
   \<and> matches_logo get_image_hash \<lparr>vedantu_logo_hash = None\<rparr> bytes = Inr False
   \<and> collect_text get_image_hash \<lparr>vedantu_logo_hash = None\<rparr> page_number pgs
       = Inr (unfiltered_text page_number pgs)
   \<and> harvest_images get_image_hash save_image \<lparr>vedantu_logo_hash = None\<rparr> page_number pgs
       = Inr (unfiltered_harvest save_image page_number pgs)"
  by (simp add: init_extractor_def should_skip_page_def matches_logo_def collect_text_no_logo
        harvest_images_no_logo)

lemma sample_unfiltered:
  "unfiltered_text 0 sample_document =
     ''\<newline>---page1---\<newline>1. foo\<newline>2. bar\<newline>---page2---\<newline>3. baz\<newline>---page3---\<newline>\<newline>---page4---\<newline>''"
  "unfiltered_harvest (\<lambda>bytes file. True) 0 sample_document =
     sample_images @ [\<lparr>page = 3, path = ''output/images/page3_image1.jpeg''\<rparr>]"
  by code_simp+

theorem absent_logo_disables_filtering_witness:
  "init_extractor (\<lambda>bytes::nat. None::nat option) None = Inr \<lparr>vedantu_logo_hash = None\<rparr>
   \<and> collect_text (\<lambda>bytes::nat. None::nat option) \<lparr>vedantu_logo_hash = None\<rparr> 0 sample_document =
       Inr ''\<newline>---page1---\<newline>1. foo\<newline>2. bar\<newline>---page2---\<newline>3. baz\<newline>---page3---\<newline>\<newline>---page4---\<newline>''
   \<and> harvest_images (\<lambda>bytes::nat. None::nat option) (\<lambda>bytes file. True) \<lparr>vedantu_logo_hash = None\<rparr> 0 sample_document =
       Inr (sample_images @ [\<lparr>page = 3, path = ''output/images/page3_image1.jpeg''\<rparr>])"
  using absent_logo_disables_filtering [of "\<lambda>bytes::nat. None::nat option" "[]" "[]" 0 0 sample_document "\<lambda>bytes file. True"]
  by (simp add: sample_unfiltered)

section \<open>The scenario of the specification\<close>

text \<open>
  Claim C5, as stated: with no harvested image available, the scenario span gives a record
  whose question text is \<^verbatim>\<open>1. What is 2+2?\<close>, whose images field is null and whose options
  are four entries labelled A to D. The question text of the record is the whole span: the
  cleaning takes out answer keys and page tags, not the options.
\<close>

lemma scenario_text:
  "clean_question_text scenario_span = scenario_span"
  "recover_page scenario_span = None"
  "\<not> skipped_span scenario_span"
  "extract_options scenario_span =
     [\<lparr>label = ''A'', otext = ''3''\<rparr>, \<lparr>label = ''B'', otext = ''4''\<rparr>,
      \<lparr>label = ''C'', otext = ''5''\<rparr>, \<lparr>label = ''D'', otext = ''6''\<rparr>]"
  by code_simp+

lemma scenario_assemble:
  assumes "length all_images \<le> image_index"
  shows "assemble all_images image_index [scenario_span] =
     [[(''question'', JStr scenario_span), (''images'', JNull),
       (''options'', JOptions [\<lparr>label = ''A'', otext = ''3''\<rparr>, \<lparr>label = ''B'', otext = ''4''\<rparr>,
                               \<lparr>label = ''C'', otext = ''5''\<rparr>, \<lparr>label = ''D'', otext = ''6''\<rparr>])]]"
proof -
  from assms have "attach_primary all_images image_index scenario_span None = ([], image_index)"
    by (simp add: attach_primary_def)
  moreover from assms have "option_images_loop all_images image_index [] = ([], image_index)"
    by (simp add: option_images_loop.simps)
  ultimately show ?thesis
    by (simp add: process_question_def scenario_text)
qed

theorem scenario_question_text_counterexample:
  "map_of (hd (assemble [] 0 [''1. What is 2+2? [A] 3 [B] 4 [C] 5 [D] 6''])) ''question''
     = Some (JStr ''1. What is 2+2? [A] 3 [B] 4 [C] 5 [D] 6'')
   \<and> ''1. What is 2+2? [A] 3 [B] 4 [C] 5 [D] 6'' \<noteq> ''1. What is 2+2?''"
  using scenario_assemble [of "[]" 0] by (simp add: scenario_span_def)

text \<open>
  Claim C5, amended: with no harvested image available, the scenario span gives a record
  whose question text is the whole span, \<^verbatim>\<open>1. What is 2+2? [A] 3 [B] 4 [C] 5 [D] 6\<close>, whose
  images field is null and whose options are the four entries A: 3, B: 4, C: 5, D: 6.
\<close>

theorem scenario_record:
  assumes "length all_images \<le> image_index"
  shows "assemble all_images image_index [''1. What is 2+2? [A] 3 [B] 4 [C] 5 [D] 6''] =
     [[(''question'', JStr ''1. What is 2+2? [A] 3 [B] 4 [C] 5 [D] 6''), (''images'', JNull),
       (''options'', JOptions [\<lparr>label = ''A'', otext = ''3''\<rparr>, \<lparr>label = ''B'', otext = ''4''\<rparr>,
                               \<lparr>label = ''C'', otext = ''5''\<rparr>, \<lparr>label = ''D'', otext = ''6''\<rparr>])]]"
  using scenario_assemble [OF assms] by (simp add: scenario_span_def)

theorem scenario_record_witness:
  "length ([] :: harvested_image list) \<le> 0
   \<and> assemble [] 0 [''1. What is 2+2? [A] 3 [B] 4 [C] 5 [D] 6''] =
     [[(''question'', JStr ''1. What is 2+2? [A] 3 [B] 4 [C] 5 [D] 6''), (''images'', JNull),
       (''options'', JOptions [\<lparr>label = ''A'', otext = ''3''\<rparr>, \<lparr>label = ''B'', otext = ''4''\<rparr>,
                               \<lparr>label = ''C'', otext = ''5''\<rparr>, \<lparr>label = ''D'', otext = ''6''\<rparr>])]]"
proof -
  have h: "length ([] :: harvested_image list) \<le> 0" by simp
  from h scenario_record [OF h] show ?thesis by (rule conjI)
qed

section \<open>Claims about the cleaning\<close>

lemma re_sub_no_match: "re_search m s = None \<Longrightarrow> re_sub m s = s"
proof (induction s)
  case Nil
  then show ?case by (subst re_sub.simps) simp
next
  case (Cons c cs)
  from Cons.prems have "re_match m (c # cs) = None" and "re_search m cs = None"
    by (auto split: option.splits)
  with Cons.IH show ?case by (subst re_sub.simps) simp
qed

lemma split_ws_space: "isspace c \<Longrightarrow> split_ws (c # s) = split_ws s"
  by (subst (1 2) split_ws.simps) simp

lemma split_ws_Nil: "split_ws [] = []"
  by (subst split_ws.simps) simp

lemma split_ws_words:
  "w \<in> set (split_ws s) \<Longrightarrow> w \<noteq> [] \<and> (\<forall>c\<in>set w. \<not> isspace c)"
proof (induction s rule: split_ws.induct)
  case (1 s)
  let ?s' = "dropWhile isspace s"
  show ?case
  proof (cases "?s' = []")
    case True
    with "1.prems" show ?thesis by (subst (asm) split_ws.simps) simp
  next
    case False
    then obtain c cs where cs: "?s' = c # cs" by (cases ?s') auto
    then have c: "\<not> isspace c" by (simp add: dropWhile_eq_Cons_conv)
    have eq: "split_ws s = takeWhile (\<lambda>c. \<not> isspace c) ?s'
                # split_ws (dropWhile (\<lambda>c. \<not> isspace c) ?s')"
      by (subst split_ws.simps) (simp only: Let_def False if_False)
    from "1.prems" consider "w = takeWhile (\<lambda>c. \<not> isspace c) ?s'"
      | "w \<in> set (split_ws (dropWhile (\<lambda>c. \<not> isspace c) ?s'))"
      unfolding eq by auto
    then show ?thesis
    proof cases
      case 1
      with cs c show ?thesis by (auto dest: set_takeWhileD)
    next
      case 2
      with "1.IH" [OF refl False] show ?thesis by simp
    qed
  qed
qed

lemma split_ws_word:
  assumes "w \<noteq> []" "\<forall>c\<in>set w. \<not> isspace c" "r = [] \<or> isspace (hd r)"
  shows "split_ws (w @ r) = w # split_ws r"
proof -
  from assms(1) obtain c cs where w: "w = c # cs" by (cases w) auto
  with assms(2) have c: "\<not> isspace c" by simp
  then have d: "dropWhile isspace (w @ r) = w @ r" by (simp add: w)
  from assms(2,3) have t: "takeWhile (\<lambda>c. \<not> isspace c) (w @ r) = w"
    by (cases r) (auto simp: takeWhile_append2)
  from assms(2,3) have e: "dropWhile (\<lambda>c. \<not> isspace c) (w @ r) = r"
    by (cases r) (auto simp: dropWhile_append2)
  from assms(1) have ne: "w @ r \<noteq> []" by simp
  show ?thesis
    by (subst split_ws.simps) (simp only: d t e Let_def ne if_False)
qed

lemma isspace_space: "isspace CHR '' ''"
  by (simp add: isspace_def)

lemma split_ws_join_sp:
  "\<forall>w\<in>set ws. w \<noteq> [] \<and> (\<forall>c\<in>set w. \<not> isspace c) \<Longrightarrow> split_ws (join_sp ws) = ws"
proof (induction ws rule: join_sp.induct)
  case 1
  then show ?case by (simp add: split_ws_Nil)
next
  case (2 w)
  then show ?case using split_ws_word [of w "[]"] by (simp add: split_ws_Nil)
next
  case (3 w v ws)
  then have "split_ws (w @ CHR '' '' # join_sp (v # ws)) = w # split_ws (CHR '' '' # join_sp (v # ws))"
    using split_ws_word [of w "CHR '' '' # join_sp (v # ws)"] by (simp add: isspace_space)
  with 3 show ?case by (simp add: split_ws_space isspace_space)
qed

lemma strip_id:
  assumes "s = [] \<or> (\<not> isspace (hd s) \<and> \<not> isspace (last s))"
  shows "strip s = s"
proof (cases s)
  case Nil
  then show ?thesis by (simp add: strip_def)
next
  case (Cons c cs)
  with assms have h: "\<not> isspace c" and l: "\<not> isspace (last s)" by auto
  from h Cons have "dropWhile isspace s = s" by simp
  moreover from l Cons have "dropWhile isspace (rev s) = rev s"
    by (cases "rev s") (auto simp: hd_rev [symmetric])
  ultimately show ?thesis by (simp add: strip_def)
qed

lemma join_sp_ends:
  assumes "\<forall>w\<in>set ws. w \<noteq> [] \<and> (\<forall>c\<in>set w. \<not> isspace c)"
  shows "join_sp ws = [] \<or> (\<not> isspace (hd (join_sp ws)) \<and> \<not> isspace (last (join_sp ws)))"
  using assms
proof (induction ws rule: join_sp.induct)
  case 1
  then show ?case by simp
next
  case (2 w)
  then show ?case by (cases w) auto
next
  case (3 w v ws)
  then have "join_sp (v # ws) \<noteq> []" by (cases ws) auto
  with 3 show ?case by (cases w) auto
qed

lemma normalise_join: "strip (join_sp (split_ws s)) = join_sp (split_ws s)"
  using join_sp_ends [of "split_ws s"] split_ws_words [of _ s] by (intro strip_id) blast

lemma normalise_idem:
  "strip (join_sp (split_ws (strip (join_sp (split_ws s))))) = strip (join_sp (split_ws s))"
proof -
  have "split_ws (join_sp (split_ws s)) = split_ws s"
    using split_ws_words [of _ s] by (intro split_ws_join_sp) blast
  then show ?thesis by (simp add: normalise_join)
qed

text \<open>
  Claim C7, as stated: cleaning is idempotent. It is not: taking a page tag out can bring
  the two halves of an answer key together, and only a second cleaning takes the key out.
\<close>

theorem clean_not_idempotent_counterexample:
  "clean_question_text ''5. Pick one. Ans.\<newline>---page2---\<newline>[B]'' = ''5. Pick one. Ans. [B]''
   \<and> clean_question_text ''5. Pick one. Ans. [B]'' = ''5. Pick one.''"
  by code_simp

text \<open>
  Claim C7, amended: cleaning a cleaned text again yields the same text whenever the
  cleaned text holds no answer key and no page tag, that is, no match of either pattern.
\<close>

theorem clean_idempotent_without_artifacts:
  assumes "re_search ans_pattern (clean_question_text s) = None"
    and "re_search page_tag_pattern (clean_question_text s) = None"
  shows "clean_question_text (clean_question_text s) = clean_question_text s"
proof -
  define t where "t = re_sub page_tag_pattern (re_sub ans_pattern s)"
  have c: "clean_question_text s = strip (join_sp (split_ws t))"
    by (simp add: clean_question_text_def t_def)
  from assms have "re_sub page_tag_pattern (re_sub ans_pattern (clean_question_text s))
      = clean_question_text s"
    by (simp add: re_sub_no_match)
  then have "clean_question_text (clean_question_text s)
      = strip (join_sp (split_ws (clean_question_text s)))"
    by (simp add: clean_question_text_def [of "clean_question_text s"])
  also have "\<dots> = clean_question_text s"
    unfolding c by (rule normalise_idem)
  finally show ?thesis .
qed

theorem clean_idempotent_without_artifacts_witness:
  "re_search ans_pattern (clean_question_text ''1.  What   is 2+2? Ans. [B] ---page3---'') = None
   \<and> re_search page_tag_pattern (clean_question_text ''1.  What   is 2+2? Ans. [B] ---page3---'') = None
   \<and> clean_question_text (clean_question_text ''1.  What   is 2+2? Ans. [B] ---page3---'')
       = clean_question_text ''1.  What   is 2+2? Ans. [B] ---page3---''"
proof -
  have a: "re_search ans_pattern (clean_question_text ''1.  What   is 2+2? Ans. [B] ---page3---'') = None"
    by code_simp
  have b: "re_search page_tag_pattern (clean_question_text ''1.  What   is 2+2? Ans. [B] ---page3---'') = None"
    by code_simp
  from a b clean_idempotent_without_artifacts [OF a b] show ?thesis by blast
qed

lemma rx_chr_Cons: "rx_chr P (g, c # cs) = (if P c then [(g, cs)] else [])"
  by (simp add: rx_chr_def)

lemma rx_chr_Nil: "rx_chr P (g, []) = []"
  by (simp add: rx_chr_def)

lemma rx_lit_Nil: "rx_lit [] st = [st]"
  by (simp add: rx_lit_def)

lemma rx_lit_Cons_Cons: "rx_lit (c # w) (g, x # xs) = (if x = c then rx_lit w (g, xs) else [])"
  by (simp add: rx_lit_def rx_chr_def)

lemma rx_lit_Cons_Nil: "rx_lit (c # w) (g, []) = []"
  by (simp add: rx_lit_def rx_chr_def)

lemmas rx_simps = rx_chr_Cons rx_chr_Nil rx_lit_Nil rx_lit_Cons_Cons rx_lit_Cons_Nil


text \<open>A repetition gives nothing back when what follows cannot start with a repeated character.\<close>

lemma rx_seq_star_greedy:
  assumes "\<And>c cs. P c \<Longrightarrow> rx_seq ms (g, c # cs) = []"
  shows "rx_seq (rx_star P # ms) (g, s) = rx_seq ms (g, dropWhile P s)"
proof (induction s)
  case Nil
  then show ?case by (simp add: rx_star_def)
next
  case (Cons c cs)
  have step: "rx_seq (rx_star P # ms) (g, c # cs) =
      (if P c then rx_seq (rx_star P # ms) (g, cs) @ rx_seq ms (g, c # cs) else rx_seq ms (g, c # cs))"
    by (simp add: rx_star_def)
  show ?case
    unfolding step using Cons assms by simp
qed

lemma lower_char_letters:
  "lower_char CHR ''A'' = CHR ''a''" "lower_char CHR ''n'' = CHR ''n''"
  "lower_char CHR ''s'' = CHR ''s''"
  by (simp_all add: lower_char_def upper_letters_def lower_letters_def)

lemma letter_cases:
  assumes "lower_char L \<in> set ''abcd''"
  shows "L \<in> set ''abcdABCD''"
  using assms
  by (simp add: lower_char_def upper_letters_def lower_letters_def split: if_splits)

lemma letter_not_space: "lower_char L \<in> set ''abcd'' \<Longrightarrow> \<not> isspace L"
  by (drule letter_cases) (auto simp: isspace_def)

lemma space_not_letter: "isspace c \<Longrightarrow> lower_char c \<notin> set ''abcd''"
  using letter_not_space by blast

lemma space_chars: "isspace c \<Longrightarrow> c \<noteq> CHR ''['' \<and> c \<noteq> CHR '']'' \<and> c \<noteq> CHR ''.''"
  by (auto simp: isspace_def)

lemma ans_tail_space:
  assumes "isspace c"
  shows "rx_seq [rx_opt (rx_lit ''[''), rx_chr (\<lambda>c. lower_char c \<in> set ''abcd''),
                 rx_opt (rx_lit '']'')] (g, c # cs) = []"
  using space_chars [OF assms] space_not_letter [OF assms]
  by (simp add: rx_opt_def rx_simps)

lemma ans_tail_key:
  assumes lb: "lb = [] \<or> lb = ''[''" and L: "lower_char L \<in> set ''abcd''"
    and rb: "rb = [] \<or> rb = '']''" and post: "rb = [] \<longrightarrow> post = [] \<or> hd post \<noteq> CHR '']''"
  shows "\<exists>rs. rx_seq [rx_opt (rx_lit ''[''), rx_chr (\<lambda>c. lower_char c \<in> set ''abcd''),
                       rx_opt (rx_lit '']'')] (g, lb @ [L] @ rb @ post) = (g, post) # rs"
proof -
  from letter_cases [OF L] have L': "L \<noteq> CHR ''[''" by auto
  have close: "\<exists>rs. rx_opt (rx_lit '']'') (g, rb @ post) = (g, post) # rs"
  proof (cases "rb = []")
    case True
    with post show ?thesis
      by (cases post) (auto simp: rx_opt_def rx_simps)
  next
    case False
    with rb show ?thesis by (auto simp: rx_opt_def rx_simps)
  qed
  then obtain rs where rs: "rx_opt (rx_lit '']'') (g, rb @ post) = (g, post) # rs" ..
  from lb show ?thesis
  proof
    assume "lb = []"
    with L L' rs show ?thesis by (simp add: rx_opt_def [of "rx_lit ''[''"] rx_simps)
  next
    assume "lb = ''[''"
    with L L' rs show ?thesis by (simp add: rx_opt_def [of "rx_lit ''[''"] rx_simps)
  qed
qed

lemma ans_star_key:
  assumes w: "\<forall>c\<in>set w. isspace c"
    and lb: "lb = [] \<or> lb = ''[''" and L: "lower_char L \<in> set ''abcd''"
    and rb: "rb = [] \<or> rb = '']''" and post: "rb = [] \<longrightarrow> post = [] \<or> hd post \<noteq> CHR '']''"
  shows "\<exists>rs. rx_seq [rx_star isspace, rx_opt (rx_lit ''[''),
                       rx_chr (\<lambda>c. lower_char c \<in> set ''abcd''), rx_opt (rx_lit '']'')]
                 (g, w @ lb @ [L] @ rb @ post) = (g, post) # rs"
proof -
  from lb letter_not_space [OF L] have "dropWhile isspace (lb @ [L] @ rb @ post) = lb @ [L] @ rb @ post"
    by (auto simp: isspace_def)
  with w have "dropWhile isspace (w @ lb @ [L] @ rb @ post) = lb @ [L] @ rb @ post"
    by (simp add: dropWhile_append2)
  then show ?thesis
    using ans_tail_key [OF lb L rb post, of g]
    by (simp only: rx_seq_star_greedy [of isspace, OF ans_tail_space])
qed

lemma ans_match_key:
  assumes a: "map lower_char a = ''ans''" and dot: "dot = [] \<or> dot = ''.''"
    and w: "\<forall>c\<in>set w. isspace c"
    and lb: "lb = [] \<or> lb = ''[''" and L: "lower_char L \<in> set ''abcd''"
    and rb: "rb = [] \<or> rb = '']''" and post: "rb = [] \<longrightarrow> post = [] \<or> hd post \<noteq> CHR '']''"
  shows "re_match ans_pattern (a @ dot @ w @ lb @ [L] @ rb @ post) = Some ([], post)"
proof -
  let ?s2 = "w @ lb @ [L] @ rb @ post"
  let ?rest = "[rx_star isspace, rx_opt (rx_lit ''[''),
                rx_chr (\<lambda>c. lower_char c \<in> set ''abcd''), rx_opt (rx_lit '']'')]"
  from a obtain a1 a2 a3 where a123: "a = [a1, a2, a3]"
    and l: "lower_char a1 = CHR ''a''" "lower_char a2 = CHR ''n''" "lower_char a3 = CHR ''s''"
    by (cases a; cases "tl a"; cases "tl (tl a)"; cases "tl (tl (tl a))") auto
  have ans: "rx_lit_i ''Ans'' ([], a @ dot @ ?s2) = [([], dot @ ?s2)]"
    by (simp add: a123 l rx_lit_i_def rx_simps lower_char_letters)
  from ans_star_key [OF w lb L rb post, of "[]"]
  obtain rs where rs: "rx_seq ?rest ([], ?s2) = ([], post) # rs" ..
  have s2: "?s2 \<noteq> [] \<and> hd ?s2 \<noteq> CHR ''.''"
  proof (cases w)
    case Nil
    from letter_cases [OF L] have "L \<noteq> CHR ''.''" by auto
    with Nil lb show ?thesis by auto
  next
    case (Cons c cs)
    with w space_chars [of c] show ?thesis by simp
  qed
  have "\<exists>rs'. rx_seq (rx_opt (rx_lit ''.'') # ?rest) ([], dot @ ?s2) = ([], post) # rs'"
  proof (cases "dot = []")
    case True
    from s2 have "rx_lit ''.'' ([], ?s2) = []"
      by (cases ?s2) (simp_all add: rx_simps)
    with True rs show ?thesis
      by (simp only: rx_seq.simps rx_opt_def) simp
  next
    case False
    with dot have d: "dot = ''.''" by simp
    have "rx_lit ''.'' ([], dot @ ?s2) = [([], ?s2)]"
      by (simp add: d rx_simps)
    with rs show ?thesis
      by (simp only: rx_seq.simps rx_opt_def) simp
  qed
  then obtain rs' where "rx_seq (rx_opt (rx_lit ''.'') # ?rest) ([], dot @ ?s2) = ([], post) # rs'" ..
  with ans show ?thesis
    by (simp add: re_match_def ans_pattern_def del: rx_seq.simps)
       (simp only: rx_seq.simps(2) [of "rx_lit_i ''Ans''"] list.map concat.simps append_Nil2 list.case)
qed

lemma re_sub_skip:
  "no_match_before m (length pre) (pre @ rest) \<Longrightarrow> re_sub m (pre @ rest) = pre @ re_sub m rest"
proof (induction pre)
  case Nil
  then show ?case by simp
next
  case (Cons c pre)
  then have "re_match m (c # pre @ rest) = None" and "re_sub m (pre @ rest) = pre @ re_sub m rest"
    by simp_all
  then show ?case by (subst re_sub.simps) simp
qed

lemma re_sub_match:
  "re_match m s = Some (g, r) \<Longrightarrow> length r < length s \<Longrightarrow> re_sub m s = re_sub m r"
  by (subst re_sub.simps) simp

text \<open>
  Claim C8, as stated: cleaning removes every answer key, "Ans" followed by a letter A to D,
  in any bracket style, letter case and spacing; a text containing \<^verbatim>\<open>Ans. [B]\<close> loses it
  whatever the spacing of letter and brackets. A key with spaces inside the brackets, or
  in parentheses, stays as it is.
\<close>

theorem answer_key_kept_counterexample:
  "clean_question_text ''2. Which one? Ans. [ B ]'' = ''2. Which one? Ans. [ B ]''
   \<and> clean_question_text ''2. Which one? Ans. (B)'' = ''2. Which one? Ans. (B)''"
  by code_simp

text \<open>
  Claim C8, amended: an answer key written as "Ans" in any letter case, an optional period,
  any run of whitespace, an optional opening square bracket, one letter A to D in either
  case and an optional closing square bracket is removed entirely by cleaning, provided no
  match of the answer-key pattern begins before it in the text (and, when the key has no
  closing bracket, none follows it directly): the result is that of the later cleaning steps
  on the text before the key followed by the rest with its own answer keys removed.
\<close>

theorem answer_key_removed:
  assumes "map lower_char a = ''ans''" and "dot = [] \<or> dot = ''.''"
    and "\<forall>c\<in>set w. isspace c"
    and "lb = [] \<or> lb = ''[''" and "lower_char L \<in> set ''abcd''"
    and "rb = [] \<or> rb = '']''" and "rb = [] \<longrightarrow> post = [] \<or> hd post \<noteq> CHR '']''"
    and "no_match_before ans_pattern (length pre) (pre @ a @ dot @ w @ lb @ [L] @ rb @ post)"
  shows "re_sub ans_pattern (pre @ a @ dot @ w @ lb @ [L] @ rb @ post) = pre @ re_sub ans_pattern post
    \<and> clean_question_text (pre @ a @ dot @ w @ lb @ [L] @ rb @ post) =
        strip (join_sp (split_ws (re_sub page_tag_pattern (pre @ re_sub ans_pattern post))))"
proof -
  let ?key = "a @ dot @ w @ lb @ [L] @ rb @ post"
  have m: "re_match ans_pattern ?key = Some ([], post)"
    using assms(1-7) by (rule ans_match_key)
  from assms(1) have "a \<noteq> []" by auto
  then have "length post < length ?key" by simp
  with m have "re_sub ans_pattern ?key = re_sub ans_pattern post"
    by (rule re_sub_match)
  with re_sub_skip [OF assms(8)]
  have "re_sub ans_pattern (pre @ ?key) = pre @ re_sub ans_pattern post"
    by simp
  then show ?thesis
    by (simp add: clean_question_text_def)
qed

theorem answer_key_removed_witness:
  "map lower_char ''aNS'' = ''ans''
   \<and> isspace CHR '' ''
   \<and> lower_char CHR ''b'' \<in> set ''abcd''
   \<and> no_match_before ans_pattern (length ''2. Which one? '') ''2. Which one? aNS.  [b] 3. Next''
   \<and> clean_question_text ''2. Which one? aNS.  [b] 3. Next'' = ''2. Which one? 3. Next''"
proof -
  have h1: "map lower_char ''aNS'' = ''ans''" by code_simp
  have h2: "''.'' = [] \<or> ''.'' = ''.''" by simp
  have h3: "\<forall>c\<in>set ''  ''. isspace c" by (simp add: isspace_def)
  have h4: "''['' = [] \<or> ''['' = ''[''" by simp
  have h5: "lower_char CHR ''b'' \<in> set ''abcd''" by code_simp
  have h6: "'']'' = [] \<or> '']'' = '']''" by simp
  have h7: "'']'' = [] \<longrightarrow> '' 3. Next'' = [] \<or> hd '' 3. Next'' \<noteq> CHR '']''" by simp
  have h8: "no_match_before ans_pattern (length ''2. Which one? '')
      (''2. Which one? '' @ ''aNS'' @ ''.'' @ ''  '' @ ''['' @ [CHR ''b''] @ '']'' @ '' 3. Next'')"
    by code_simp
  have e: "strip (join_sp (split_ws (re_sub page_tag_pattern
             (''2. Which one? '' @ re_sub ans_pattern '' 3. Next'')))) = ''2. Which one? 3. Next''"
    by code_simp
  from answer_key_removed [OF h1 h2 h3 h4 h5 h6 h7 h8] e
  have "clean_question_text ''2. Which one? aNS.  [b] 3. Next'' = ''2. Which one? 3. Next''"
    by simp
  moreover have "isspace CHR '' ''" by (simp add: isspace_def)
  ultimately show ?thesis using h1 h5 h8 by simp
qed

section \<open>Claims about the option parser\<close>





























end
